theory Spec2Isabelle
  imports Complex_Main "HOL-Library.Char_ord" "HOL-Library.List_Lexorder"
begin

section \<open>JavaScript values and ordinary objects\<close>

text \<open>
  The values that occur in queries, results and transient data. The numbers in them are
  modelled as integers; objects are association lists whose order is the order in which
  \<^verbatim>\<open>Object.keys\<close> enumerates the own properties. Functions, symbols, cyclic
  structures and prototypes are outside the model. Equality of \<open>jsval\<close> is equality of
  these lists: two objects with the same fields in a different order are different values.
\<close>

datatype jsval =
    JUndefined
  | JNull
  | JBool bool
  | JNum int
  | JStr string
  | JArr "jsval list"
  | JObj "(string \<times> jsval) list"

type_synonym jsobj = "(string \<times> jsval) list"

text \<open>\<^verbatim>\<open>Object.keys(obj)\<close>.\<close>

definition object_keys :: "jsobj \<Rightarrow> string list" where
  "object_keys obj = map fst obj"

text \<open>
  \<^verbatim>\<open>obj[key]\<close> on the own properties: reading a property that is absent gives
  \<^verbatim>\<open>undefined\<close>. (The code reads only names that \<^verbatim>\<open>Object.keys\<close> has returned, so
  inherited properties are never read.)
\<close>

definition get_prop :: "jsobj \<Rightarrow> string \<Rightarrow> jsval" where
  "get_prop obj key = (case map_of obj key of None \<Rightarrow> JUndefined | Some v \<Rightarrow> v)"

text \<open>An object has every property name once.\<close>

definition wf_obj :: "jsobj \<Rightarrow> bool" where
  "wf_obj obj = distinct (object_keys obj)"

subsection \<open>Property order of ordinary objects\<close>

text \<open>
  An ordinary object enumerates its array-index keys first, in ascending numeric order,
  and then its other string keys in creation order. An array index is the canonical
  decimal string of an integer below \<open>2^32 - 1\<close>.
\<close>

definition digit_char :: "nat \<Rightarrow> char" where
  "digit_char d = ''0123456789'' ! d"

fun string_of_nat :: "nat \<Rightarrow> string" where
  "string_of_nat n =
     (if n < 10 then [digit_char n] else string_of_nat (n div 10) @ [digit_char (n mod 10)])"

declare string_of_nat.simps [simp del]

definition digit_val :: "char \<Rightarrow> nat" where
  "digit_val c = of_char c - 48"

definition is_digit :: "char \<Rightarrow> bool" where
  "is_digit c = (48 \<le> (of_char c :: nat) \<and> (of_char c :: nat) \<le> 57)"

definition nat_of_string :: "string \<Rightarrow> nat" where
  "nat_of_string s = foldl (\<lambda>acc c. 10 * acc + digit_val c) 0 s"

definition array_index :: "string \<Rightarrow> nat option" where
  "array_index s =
     (if s \<noteq> [] \<and> list_all is_digit s \<and> (s = ''0'' \<or> hd s \<noteq> CHR ''0'')
         \<and> nat_of_string s < 4294967295
      then Some (nat_of_string s) else None)"

fun insert_index :: "nat \<Rightarrow> string \<Rightarrow> jsval \<Rightarrow> jsobj \<Rightarrow> jsobj" where
  "insert_index n k v [] = [(k, v)]"
| "insert_index n k v ((k', v') # rest) =
     (case array_index k' of
        Some n' \<Rightarrow>
          if n' < n then (k', v') # insert_index n k v rest else (k, v) # (k', v') # rest
      | None \<Rightarrow> (k, v) # (k', v') # rest)"

text \<open>
  Creating or overwriting an own data property (the step object spread takes for every
  property it copies): an existing property keeps its place; a new one is created at the
  place the enumeration order gives it.
\<close>

definition obj_define :: "jsobj \<Rightarrow> string \<Rightarrow> jsval \<Rightarrow> jsobj" where
  "obj_define obj k v =
     (if k \<in> set (object_keys obj)
      then map (\<lambda>(k', v'). if k' = k then (k', v) else (k', v')) obj
      else case array_index k of
             Some n \<Rightarrow> insert_index n k v obj
           | None \<Rightarrow> obj @ [(k, v)])"

text \<open>
  The assignment \<^verbatim>\<open>obj[key] = value\<close>. On an object without an own property
  \<^verbatim>\<open>__proto__\<close> the assignment to that name runs the setter of \<^verbatim>\<open>Object.prototype\<close>:
  it creates no own property (what it does to the prototype is not seen by
  \<^verbatim>\<open>Object.keys\<close> nor by the serializer). Every other assignment creates or overwrites
  the own property.
\<close>

definition obj_set :: "jsobj \<Rightarrow> string \<Rightarrow> jsval \<Rightarrow> jsobj" where
  "obj_set obj k v =
     (if k = ''__proto__'' \<and> k \<notin> set (object_keys obj) then obj else obj_define obj k v)"

text \<open>
  Object spread: \<^verbatim>\<open>{ ...a, ...b }\<close> is \<open>spread (spread [] a) b\<close>; the own properties of
  the source are defined on the target one after the other.
\<close>

definition spread :: "jsobj \<Rightarrow> jsobj \<Rightarrow> jsobj" where
  "spread target src = fold (\<lambda>(k, v) acc. obj_define acc k v) src target"

definition merge_objects :: "jsobj \<Rightarrow> jsobj \<Rightarrow> jsobj" where
  "merge_objects a b = spread (spread [] a) b"

subsection \<open>Numbers\<close>

text \<open>
  A JavaScript number, as far as \<^verbatim>\<open>Math.abs\<close> and \<^verbatim>\<open>>=\<close> see it: a finite value (every
  finite double is a rational number, and the two zeros compare alike), \<^verbatim>\<open>NaN\<close>, or one
  of the infinities. A comparison with \<^verbatim>\<open>NaN\<close> is false.
\<close>

datatype jsnum = Finite rat | NaN | PosInfinity | NegInfinity

fun math_abs :: "jsnum \<Rightarrow> jsnum" where
  "math_abs (Finite x) = Finite \<bar>x\<bar>"
| "math_abs NaN = NaN"
| "math_abs PosInfinity = PosInfinity"
| "math_abs NegInfinity = PosInfinity"

fun num_ge :: "jsnum \<Rightarrow> jsnum \<Rightarrow> bool" where
  "num_ge NaN b = False"
| "num_ge a NaN = False"
| "num_ge (Finite x) (Finite y) = (y \<le> x)"
| "num_ge PosInfinity b = True"
| "num_ge a NegInfinity = True"
| "num_ge (Finite x) PosInfinity = False"
| "num_ge NegInfinity b = False"

section \<open>util: serializeObject and removeOldestEntry\<close>

text \<open>
  \<^verbatim>\<open>omitBy(obj, shouldOmit)\<close> of es-toolkit: starting from an empty object, it goes
  through \<^verbatim>\<open>Object.keys(obj)\<close> and assigns \<^verbatim>\<open>result[key] = obj[key]\<close> for every key
  whose value does not satisfy \<open>shouldOmit\<close>.
\<close>

definition omitBy :: "jsobj \<Rightarrow> (jsval \<Rightarrow> bool) \<Rightarrow> jsobj" where
  "omitBy obj shouldOmit =
     fold (\<lambda>key result.
             let value = get_prop obj key in
             if \<not> shouldOmit value then obj_set result key value else result)
       (object_keys obj) []"

text \<open>
  The serializer of serialize-javascript, called with \<^verbatim>\<open>isJSON\<close> and
  \<^verbatim>\<open>ignoreFunction\<close>, is a parameter of the model: it returns a string or throws.
\<close>

datatype error = TypeError string

type_synonym serializer = "jsobj \<Rightarrow> error + string"

text \<open>
  \<^verbatim>\<open>Array.prototype.sort\<close> without a comparator orders strings by their code units;
  \<open>sort\<close> on \<open>string\<close> orders them lexicographically by character code.
\<close>

definition serializeObject :: "serializer \<Rightarrow> jsobj \<Rightarrow> bool \<Rightarrow> error + string" where
  "serializeObject serialize query sortKeys =
     (let filtered = omitBy query (\<lambda>value. value = JUndefined) in
      if \<not> sortKeys then serialize filtered
      else
        let sorted = fold (\<lambda>key acc. obj_set acc key (get_prop filtered key))
                       (sort (object_keys filtered)) []
        in serialize sorted)"

text \<open>
  A JavaScript \<^verbatim>\<open>Map\<close>: the entries in insertion order. Keys are JavaScript values,
  so the key \<^verbatim>\<open>undefined\<close> is a possible key. \<^verbatim>\<open>set\<close> on a key that is present
  replaces the value where the entry stands; on a new key it appends the entry.
\<close>

type_synonym 'v jsmap = "(jsval \<times> 'v) list"

definition wf_jsmap :: "'v jsmap \<Rightarrow> bool" where
  "wf_jsmap m = distinct (map fst m)"

definition jsmap_size :: "'v jsmap \<Rightarrow> int" where
  "jsmap_size m = int (length m)"

text \<open>\<^verbatim>\<open>map.size\<close> as a number.\<close>

definition jsmap_size_num :: "'v jsmap \<Rightarrow> jsnum" where
  "jsmap_size_num m = Finite (of_int (jsmap_size m))"

definition jsmap_has :: "'v jsmap \<Rightarrow> jsval \<Rightarrow> bool" where
  "jsmap_has m k = (k \<in> set (map fst m))"

definition jsmap_get :: "'v jsmap \<Rightarrow> jsval \<Rightarrow> 'v option" where
  "jsmap_get m k = map_of m k"

definition jsmap_set :: "'v jsmap \<Rightarrow> jsval \<Rightarrow> 'v \<Rightarrow> 'v jsmap" where
  "jsmap_set m k v =
     (if jsmap_has m k then map (\<lambda>(k', v'). if k' = k then (k', v) else (k', v')) m
      else m @ [(k, v)])"

definition jsmap_delete :: "'v jsmap \<Rightarrow> jsval \<Rightarrow> 'v jsmap" where
  "jsmap_delete m k = filter (\<lambda>(k', v'). k' \<noteq> k) m"

text \<open>\<^verbatim>\<open>map.keys().next().value\<close>: the first key, \<^verbatim>\<open>undefined\<close> when there is none.\<close>

definition jsmap_first_key :: "'v jsmap \<Rightarrow> jsval" where
  "jsmap_first_key m = (case m of [] \<Rightarrow> JUndefined | (k, v) # rest \<Rightarrow> k)"

definition removeOldestEntry :: "'v jsmap \<Rightarrow> 'v jsmap" where
  "removeOldestEntry m =
     (let firstKey = jsmap_first_key m in
      if firstKey \<noteq> JUndefined then jsmap_delete m firstKey else m)"

section \<open>StateSubject and SimpleStore\<close>

text \<open>
  Modelled from the spec: the class \<^verbatim>\<open>StateSubject\<close> (the spec's ChangeGatedEmitter) is
  not among the sources. It holds the current value and the value last delivered;
  \<open>delivered\<close> records, oldest first, what a subscriber attached at construction has
  received, the replayed initial value included. \<open>update\<close> always overwrites
  \<open>current\<close>, and delivers the value and moves \<open>lastEmitted\<close> only when the value is
  not deeply equal to the value last delivered.
\<close>

record 'v StateSubject =
  initialValue :: 'v
  current :: 'v
  lastEmitted :: 'v
  delivered :: "'v list"

definition new_StateSubject :: "'v \<Rightarrow> 'v StateSubject" where
  "new_StateSubject v = \<lparr>initialValue = v, current = v, lastEmitted = v, delivered = [v]\<rparr>"

definition update :: "'v \<Rightarrow> 'v StateSubject \<Rightarrow> 'v StateSubject" where
  "update v s =
     (let s' = s\<lparr>current := v\<rparr> in
      if v \<noteq> lastEmitted s' then s'\<lparr>lastEmitted := v, delivered := delivered s' @ [v]\<rparr>
      else s')"

definition reset :: "'v StateSubject \<Rightarrow> 'v StateSubject" where
  "reset s = update (initialValue s) s"

text \<open>The state of a \<^verbatim>\<open>QueryResultStore\<close>, and a \<^verbatim>\<open>Partial\<close> of it.\<close>

record store_state =
  query :: jsobj
  result :: jsobj
  transient :: jsobj

record partial_state =
  p_query :: "jsobj option"
  p_result :: "jsobj option"
  p_transient :: "jsobj option"

definition no_change :: partial_state where
  "no_change = \<lparr>p_query = None, p_result = None, p_transient = None\<rparr>"

record QueryResultStore =
  subject :: "store_state StateSubject"
  cache :: "jsobj jsmap"
  useCaching :: bool
  cacheLimit :: jsnum

definition new_QueryResultStore :: "store_state \<Rightarrow> QueryResultStore" where
  "new_QueryResultStore initial =
     \<lparr>subject = new_StateSubject initial, cache = [], useCaching = False, cacheLimit = Finite 100\<rparr>"

text \<open>
  Modelled from the spec: \<^verbatim>\<open>getState\<close> and \<^verbatim>\<open>setState\<close> of the class \<^verbatim>\<open>SimpleStore\<close>
  (the spec's KeyedStore), which is not among the sources. \<^verbatim>\<open>getState\<close> returns the
  current record; \<^verbatim>\<open>setState\<close> merges the fields present in the partial record into it,
  the other fields keeping their value, and forwards the result to \<open>update\<close>. The
  optional side-effect function of \<^verbatim>\<open>setState\<close> is never passed by
  \<^verbatim>\<open>QueryResultStore\<close> and is left out.
\<close>

definition getState :: "QueryResultStore \<Rightarrow> store_state" where
  "getState st = current (subject st)"

definition shallow_merge :: "store_state \<Rightarrow> partial_state \<Rightarrow> store_state" where
  "shallow_merge s p =
     \<lparr>query = (case p_query p of None \<Rightarrow> query s | Some q \<Rightarrow> q),
      result = (case p_result p of None \<Rightarrow> result s | Some r \<Rightarrow> r),
      transient = (case p_transient p of None \<Rightarrow> transient s | Some t \<Rightarrow> t)\<rparr>"

definition setState :: "partial_state \<Rightarrow> QueryResultStore \<Rightarrow> QueryResultStore" where
  "setState partial st = st\<lparr>subject := update (shallow_merge (getState st) partial) (subject st)\<rparr>"

section \<open>QueryResultStore\<close>

text \<open>
  Every method takes the store and returns the store it leaves behind. A method that
  calls the serializer returns, beside the store, its value or the error thrown.
\<close>

definition setQuery :: "jsobj \<Rightarrow> QueryResultStore \<Rightarrow> QueryResultStore" where
  "setQuery q st = setState (no_change\<lparr>p_query := Some (merge_objects (query (getState st)) q)\<rparr>) st"

definition getQuery :: "QueryResultStore \<Rightarrow> jsobj" where
  "getQuery st = query (getState st)"

definition getResult :: "QueryResultStore \<Rightarrow> jsobj" where
  "getResult st = result (getState st)"

definition setTransient :: "jsobj \<Rightarrow> QueryResultStore \<Rightarrow> QueryResultStore" where
  "setTransient t st =
     setState (no_change\<lparr>p_transient := Some (merge_objects (transient (getState st)) t)\<rparr>) st"

definition getTransient :: "QueryResultStore \<Rightarrow> jsobj" where
  "getTransient st = transient (getState st)"

definition getCacheKey :: "serializer \<Rightarrow> QueryResultStore \<Rightarrow> (error + string) \<times> QueryResultStore" where
  "getCacheKey serialize st = (serializeObject serialize (getQuery st) True, st)"

definition getCachedResult ::
  "serializer \<Rightarrow> QueryResultStore \<Rightarrow> (error + jsobj option) \<times> QueryResultStore" where
  "getCachedResult serialize st =
     (if \<not> useCaching st then (Inr None, st)
      else case getCacheKey serialize st of
             (Inl e, st1) \<Rightarrow> (Inl e, st1)
           | (Inr key, st1) \<Rightarrow>
               if jsmap_has (cache st1) (JStr key) then (Inr (jsmap_get (cache st1) (JStr key)), st1)
               else (Inr None, st1))"

definition cacheResult ::
  "serializer \<Rightarrow> jsobj \<Rightarrow> QueryResultStore \<Rightarrow> (error + unit) \<times> QueryResultStore" where
  "cacheResult serialize res st =
     (if \<not> useCaching st then (Inr (), st)
      else
        let st1 = (if num_ge (jsmap_size_num (cache st)) (math_abs (cacheLimit st))
                   then st\<lparr>cache := removeOldestEntry (cache st)\<rparr> else st)
        in case getCacheKey serialize st1 of
             (Inl e, st2) \<Rightarrow> (Inl e, st2)
           | (Inr key, st2) \<Rightarrow> (Inr (), st2\<lparr>cache := jsmap_set (cache st2) (JStr key) res\<rparr>))"

definition setResult ::
  "serializer \<Rightarrow> jsobj \<Rightarrow> QueryResultStore \<Rightarrow> (error + unit) \<times> QueryResultStore" where
  "setResult serialize res st =
     (let newResult = merge_objects (result (getState st)) res in
      case cacheResult serialize newResult st of
        (Inl e, st1) \<Rightarrow> (Inl e, st1)
      | (Inr u, st1) \<Rightarrow> (Inr (), setState (no_change\<lparr>p_result := Some newResult\<rparr>) st1))"

definition shouldCache :: "bool \<Rightarrow> QueryResultStore \<Rightarrow> QueryResultStore" where
  "shouldCache v st = st\<lparr>useCaching := v\<rparr>"

text \<open>
  Sequences of calls on a store. \<open>run_op\<close> gives the store a call leaves behind, whether
  the call returned or threw.
\<close>

datatype op =
    SetQuery jsobj
  | SetResult jsobj
  | SetTransient jsobj
  | CacheResult jsobj
  | GetCachedResult
  | GetCacheKey
  | ShouldCache bool

fun run_op :: "serializer \<Rightarrow> op \<Rightarrow> QueryResultStore \<Rightarrow> QueryResultStore" where
  "run_op serialize (SetQuery q) st = setQuery q st"
| "run_op serialize (SetResult r) st = snd (setResult serialize r st)"
| "run_op serialize (SetTransient t) st = setTransient t st"
| "run_op serialize (CacheResult r) st = snd (cacheResult serialize r st)"
| "run_op serialize GetCachedResult st = snd (getCachedResult serialize st)"
| "run_op serialize GetCacheKey st = snd (getCacheKey serialize st)"
| "run_op serialize (ShouldCache v) st = shouldCache v st"

definition run_ops :: "serializer \<Rightarrow> op list \<Rightarrow> QueryResultStore \<Rightarrow> QueryResultStore" where
  "run_ops serialize ops st = fold (run_op serialize) ops st"

subsection \<open>The eviction step and the invariant of the cache\<close>

text \<open>
  \<open>at_capacity\<close> is the test of \<^verbatim>\<open>cacheResult\<close>,
  \<^verbatim>\<open>this.cache.size >= Math.abs(this.cacheLimit)\<close>, and \<open>evict\<close> names the cache as the
  first statement of \<^verbatim>\<open>cacheResult\<close> leaves it: without its oldest entry when the test
  holds. \<open>cache_inv\<close> says that the cache is a map and that \<^verbatim>\<open>undefined\<close> is not one
  of its keys; \<open>bounded\<close> adds the bound on its size that a finite limit gives.
\<close>

definition at_capacity :: "QueryResultStore \<Rightarrow> bool" where
  "at_capacity st = num_ge (jsmap_size_num (cache st)) (math_abs (cacheLimit st))"

definition evict :: "QueryResultStore \<Rightarrow> jsobj jsmap" where
  "evict st = (if at_capacity st then removeOldestEntry (cache st) else cache st)"

definition cache_inv :: "QueryResultStore \<Rightarrow> bool" where
  "cache_inv st = (wf_jsmap (cache st) \<and> JUndefined \<notin> set (map fst (cache st)))"

definition size_bound :: "jsnum \<Rightarrow> int option" where
  "size_bound limit = (case limit of Finite x \<Rightarrow> Some (max 1 \<lceil>\<bar>x\<bar>\<rceil>) | _ \<Rightarrow> None)"

definition bounded :: "QueryResultStore \<Rightarrow> bool" where
  "bounded st =
     (cache_inv st \<and>
      (case size_bound (cacheLimit st) of Some b \<Rightarrow> jsmap_size (cache st) \<le> b | None \<Rightarrow> True))"

section \<open>A JSON serializer\<close>

text \<open>
  A serializer to run the store on concrete queries: \<^verbatim>\<open>JSON.stringify\<close> on the values
  of the model, followed by the escaping of \<^verbatim>\<open><\<close>, \<^verbatim>\<open>>\<close> and \<^verbatim>\<open>/\<close> that
  serialize-javascript applies to its output. A property whose value is
  \<^verbatim>\<open>undefined\<close> is left out of an object and printed as \<^verbatim>\<open>null\<close> in an array.
  Strings are taken to hold printable ASCII characters only, so that quoting has to escape
  the double quote and the backslash and nothing else. On the values of the model this
  serializer never throws.
\<close>

definition string_of_int :: "int \<Rightarrow> string" where
  "string_of_int i = (if i < 0 then CHR ''-'' # string_of_nat (nat (- i)) else string_of_nat (nat i))"

definition json_quote :: "string \<Rightarrow> string" where
  "json_quote s =
     [CHR 0x22] @
     concat (map (\<lambda>c. if c = CHR 0x22 \<or> c = CHR 0x5C then [CHR 0x5C, c] else [c]) s) @
     [CHR 0x22]"

fun join_commas :: "string list \<Rightarrow> string" where
  "join_commas [] = []"
| "join_commas [x] = x"
| "join_commas (x # y # ys) = x @ '','' @ join_commas (y # ys)"

fun json_stringify :: "jsval \<Rightarrow> string" where
  "json_stringify JUndefined = ''null''"
| "json_stringify JNull = ''null''"
| "json_stringify (JBool b) = (if b then ''true'' else ''false'')"
| "json_stringify (JNum i) = string_of_int i"
| "json_stringify (JStr s) = json_quote s"
| "json_stringify (JArr xs) = ''['' @ join_commas (map json_stringify xs) @ '']''"
| "json_stringify (JObj kvs) =
     ''{'' @
     join_commas (concat (map (\<lambda>(k, v). if v = JUndefined then []
                                         else [json_quote k @ '':'' @ json_stringify v]) kvs)) @
     ''}''"

definition escape_unsafe :: "string \<Rightarrow> string" where
  "escape_unsafe s =
     concat (map (\<lambda>c. if c = CHR ''<'' then [CHR 0x5C] @ ''u003C''
                       else if c = CHR ''>'' then [CHR 0x5C] @ ''u003E''
                       else if c = CHR ''/'' then [CHR 0x5C] @ ''u002F''
                       else [c]) s)"

definition json_serialize :: serializer where
  "json_serialize obj = Inr (escape_unsafe (json_stringify (JObj obj)))"

section \<open>The specification's words, as definitions\<close>

text \<open>
  The record the specification describes for the cache key: the fields whose value is not
  \<^verbatim>\<open>undefined\<close>, ordered by their names.
\<close>

definition canonical_record :: "jsobj \<Rightarrow> jsobj" where
  "canonical_record q =
     map (\<lambda>k. (k, get_prop q k)) (sort (filter (\<lambda>k. get_prop q k \<noteq> JUndefined) (object_keys q)))"

text \<open>
  The notifications the specification describes for a sequence of \<open>update\<close> calls: the
  values that differ from the value delivered before them.
\<close>

fun gated :: "'v \<Rightarrow> 'v list \<Rightarrow> 'v list" where
  "gated prev [] = []"
| "gated prev (v # vs) = (if v \<noteq> prev then v # gated v vs else gated prev vs)"

section \<open>Evaluation on concrete stores\<close>

lemma array_index_nondigit: "\<not> is_digit c \<Longrightarrow> array_index (c # s) = None"
  by (simp add: array_index_def)

lemmas eval_obj = obj_set_def obj_define_def object_keys_def get_prop_def spread_def merge_objects_def omitBy_def
  array_index_nondigit is_digit_def wf_obj_def Let_def

lemmas eval_json = json_serialize_def escape_unsafe_def json_quote_def string_of_int_def
  string_of_nat.simps digit_char_def

lemmas eval_map = jsmap_size_def jsmap_has_def jsmap_get_def jsmap_set_def jsmap_delete_def
  jsmap_first_key_def removeOldestEntry_def wf_jsmap_def jsmap_size_num_def at_capacity_def

lemmas eval_store = getState_def setState_def shallow_merge_def update_def no_change_def
  setQuery_def getQuery_def getResult_def setTransient_def getTransient_def getCacheKey_def
  getCachedResult_def cacheResult_def setResult_def shouldCache_def new_QueryResultStore_def
  new_StateSubject_def run_ops_def serializeObject_def

section \<open>Assignment and spread on objects\<close>

lemma spread_Nil: "spread target [] = target"
  by (simp add: spread_def)

lemma spread_Cons: "spread target ((k, v) # src) = spread (obj_define target k v) src"
  by (simp add: spread_def)

lemma set_insert_index: "set (insert_index n k v obj) = insert (k, v) (set obj)"
  by (induction obj) (auto split: option.splits if_splits)

lemma distinct_insert_index:
  "distinct (map fst obj) \<Longrightarrow> k \<notin> fst ` set obj \<Longrightarrow> distinct (map fst (insert_index n k v obj))"
proof (induction obj)
  case Nil
  then show ?case by simp
next
  case (Cons a obj)
  obtain k' v' where a: "a = (k', v')" by (cases a)
  show ?case using Cons a by (auto simp: set_insert_index split: option.splits)
qed

lemma map_of_insert_index:
  "map_of obj k = None \<Longrightarrow>
   map_of (insert_index n k v obj) x = (if x = k then Some v else map_of obj x)"
proof (induction obj)
  case Nil
  then show ?case by simp
next
  case (Cons a obj)
  obtain k' v' where a: "a = (k', v')" by (cases a)
  show ?case using Cons a by (auto split: option.splits if_splits)
qed

lemma map_of_replace:
  "map_of (map (\<lambda>(k', v'). if k' = k then (k', v) else (k', v')) m) x =
     (if x = k \<and> map_of m k \<noteq> None then Some v else map_of m x)"
proof (induction m)
  case Nil
  then show ?case by simp
next
  case (Cons a m)
  obtain k' v' where a: "a = (k', v')" by (cases a)
  show ?case using Cons a by auto
qed

lemma keys_replace:
  "map fst (map (\<lambda>(k', v'). if k' = k then (k', v) else (k', v')) m) = map fst m"
  by (induction m) auto

lemma map_of_snoc:
  "map_of (m @ [(k, v)]) x = (case map_of m x of None \<Rightarrow> if x = k then Some v else None | Some y \<Rightarrow> Some y)"
  by (induction m) auto

lemma map_of_obj_define: "map_of (obj_define obj k v) x = (if x = k then Some v else map_of obj x)"
proof (cases "k \<in> set (object_keys obj)")
  case True
  then have "map_of obj k \<noteq> None" by (simp add: object_keys_def map_of_eq_None_iff)
  then show ?thesis using True by (auto simp: obj_define_def map_of_replace)
next
  case False
  then have "map_of obj k = None" by (simp add: object_keys_def map_of_eq_None_iff)
  then show ?thesis using False
    by (cases "array_index k")
       (auto simp add: obj_define_def map_of_insert_index map_of_snoc simp del: map_of_append
          split: option.splits)
qed

lemma keys_obj_define: "set (object_keys (obj_define obj k v)) = insert k (set (object_keys obj))"
proof (cases "k \<in> set (object_keys obj)")
  case True
  have "object_keys (obj_define obj k v) = object_keys obj"
    using True unfolding obj_define_def object_keys_def by (simp only: if_True keys_replace)
  then show ?thesis using True by (simp add: insert_absorb)
next
  case False
  show ?thesis
  proof (cases "array_index k")
    case None
    then show ?thesis using False by (simp add: obj_define_def object_keys_def)
  next
    case (Some n)
    have "obj_define obj k v = insert_index n k v obj" using False Some by (simp add: obj_define_def)
    then show ?thesis by (simp add: object_keys_def set_insert_index)
  qed
qed

lemma wf_obj_define: "wf_obj obj \<Longrightarrow> wf_obj (obj_define obj k v)"
proof (cases "k \<in> set (object_keys obj)")
  case True
  assume "wf_obj obj"
  moreover have "object_keys (obj_define obj k v) = object_keys obj"
    using True unfolding obj_define_def object_keys_def by (simp only: if_True keys_replace)
  ultimately show ?thesis by (simp add: wf_obj_def)
next
  case False
  assume wf: "wf_obj obj"
  show ?thesis
  proof (cases "array_index k")
    case None
    then show ?thesis using False wf by (simp add: obj_define_def object_keys_def wf_obj_def)
  next
    case (Some n)
    have "obj_define obj k v = insert_index n k v obj" using False Some by (simp add: obj_define_def)
    then show ?thesis using False wf distinct_insert_index [of obj k n v]
      by (simp add: object_keys_def wf_obj_def)
  qed
qed

lemma wf_spread: "wf_obj target \<Longrightarrow> wf_obj (spread target src)"
proof (induction src arbitrary: target)
  case Nil
  then show ?case by (simp add: spread_Nil)
next
  case (Cons a src)
  obtain k v where a: "a = (k, v)" by (cases a)
  show ?case using Cons.IH [of "obj_define target k v"] Cons.prems
    by (simp add: a spread_Cons wf_obj_define)
qed

lemma map_of_spread:
  "wf_obj src \<Longrightarrow>
   map_of (spread target src) x = (case map_of src x of None \<Rightarrow> map_of target x | Some v \<Rightarrow> Some v)"
proof (induction src arbitrary: target)
  case Nil
  then show ?case by (simp add: spread_Nil)
next
  case (Cons a src)
  obtain k v where a: "a = (k, v)" by (cases a)
  from Cons.prems a have notin: "k \<notin> fst ` set src" and wf: "wf_obj src"
    by (auto simp: wf_obj_def object_keys_def)
  have absent: "map_of src k = None" using notin by (simp add: map_of_eq_None_iff)
  show ?case using Cons.IH [OF wf, of "obj_define target k v"] absent
    by (auto simp: a spread_Cons map_of_obj_define split: option.splits)
qed

lemma keys_spread: "set (object_keys (spread t s)) = set (object_keys t) \<union> set (object_keys s)"
proof (induction s arbitrary: t)
  case Nil
  then show ?case by (simp add: spread_Nil object_keys_def)
next
  case (Cons a s)
  obtain k v where a: "a = (k, v)" by (cases a)
  have "set (object_keys (a # s)) = insert k (set (object_keys s))"
    by (simp add: a object_keys_def)
  then show ?case using Cons.IH [of "obj_define t k v"]
    by (simp add: a spread_Cons keys_obj_define)
qed

lemma wf_merge_objects: "wf_obj (merge_objects a b)"
proof -
  have "wf_obj (spread [] a)" by (intro wf_spread) (simp add: wf_obj_def object_keys_def)
  then show ?thesis by (simp add: merge_objects_def wf_spread)
qed

lemma map_of_merge_objects:
  "wf_obj a \<Longrightarrow> wf_obj b \<Longrightarrow>
   map_of (merge_objects a b) x = (case map_of b x of None \<Rightarrow> map_of a x | Some v \<Rightarrow> Some v)"
  by (simp add: merge_objects_def map_of_spread split: option.splits)

lemma get_prop_merge_objects:
  assumes "wf_obj a" "wf_obj b"
  shows "get_prop (merge_objects a b) k =
           (if k \<in> set (object_keys b) then get_prop b k else get_prop a k)"
proof -
  have "k \<in> set (object_keys b) \<longleftrightarrow> map_of b k \<noteq> None"
    by (simp add: object_keys_def map_of_eq_None_iff)
  then show ?thesis
    using assms by (auto simp: get_prop_def map_of_merge_objects split: option.splits)
qed

lemma keys_merge_objects:
  "set (object_keys (merge_objects a b)) = set (object_keys a) \<union> set (object_keys b)"
  by (simp add: merge_objects_def keys_spread) (simp add: object_keys_def)

section \<open>The cache key\<close>

lemma obj_set_no_proto:
  "''__proto__'' \<notin> set (object_keys obj) \<Longrightarrow>
   obj_set obj k v = (if k = ''__proto__'' then obj else obj_define obj k v)"
  by (simp add: obj_set_def)

lemma wf_obj_set: "wf_obj obj \<Longrightarrow> wf_obj (obj_set obj k v)"
  by (simp add: obj_set_def wf_obj_define)

lemma sort_distinct_set:
  "distinct xs \<Longrightarrow> distinct ys \<Longrightarrow> set xs = set ys \<Longrightarrow> sort xs = sort (ys :: 'a::linorder list)"
  by (metis distinct_remdups_id sorted_list_of_set_sort_remdups)

lemma get_prop_defined_key: "get_prop q k \<noteq> JUndefined \<Longrightarrow> k \<in> set (object_keys q)"
  by (auto simp: get_prop_def object_keys_def split: option.splits
        dest: map_of_SomeD intro: rev_image_eqI)

lemma keys_dom: "set (object_keys obj) = {k. map_of obj k \<noteq> None}"
  by (auto simp: object_keys_def map_of_eq_None_iff)

subsection \<open>The loop of omitBy\<close>

lemma omit_loop_no_proto:
  "''__proto__'' \<notin> set (object_keys acc) \<Longrightarrow>
   ''__proto__'' \<notin> set (object_keys
      (fold (\<lambda>key result. let value = g key in
               if \<not> P value then obj_set result key value else result) ks acc))"
proof (induction ks arbitrary: acc)
  case Nil
  then show ?case by simp
next
  case (Cons k ks)
  have "''__proto__'' \<notin> set (object_keys (if \<not> P (g k) then obj_set acc k (g k) else acc))"
    using Cons.prems by (simp add: obj_set_no_proto keys_obj_define)
  then show ?case using Cons.IH by (simp add: Let_def)
qed

lemma omit_loop_wf:
  "wf_obj acc \<Longrightarrow>
   wf_obj (fold (\<lambda>key result. let value = g key in
                  if \<not> P value then obj_set result key value else result) ks acc)"
proof (induction ks arbitrary: acc)
  case Nil
  then show ?case by simp
next
  case (Cons k ks)
  have "wf_obj (if \<not> P (g k) then obj_set acc k (g k) else acc)"
    using Cons.prems by (simp add: wf_obj_set)
  then show ?case using Cons.IH by (simp add: Let_def)
qed

lemma omit_loop_map_of:
  "''__proto__'' \<notin> set (object_keys acc) \<Longrightarrow>
   map_of (fold (\<lambda>key result. let value = g key in
                  if \<not> P value then obj_set result key value else result) ks acc) x =
     (if x \<in> set ks \<and> x \<noteq> ''__proto__'' \<and> \<not> P (g x) then Some (g x) else map_of acc x)"
proof (induction ks arbitrary: acc)
  case Nil
  then show ?case by simp
next
  case (Cons k ks)
  let ?acc' = "if \<not> P (g k) then obj_set acc k (g k) else acc"
  have np: "''__proto__'' \<notin> set (object_keys ?acc')"
    using Cons.prems by (simp add: obj_set_no_proto keys_obj_define)
  have step: "map_of ?acc' x =
                (if x = k \<and> x \<noteq> ''__proto__'' \<and> \<not> P (g x) then Some (g x) else map_of acc x)"
    using Cons.prems by (auto simp: obj_set_no_proto map_of_obj_define)
  have unfold: "fold (\<lambda>key result. let value = g key in
                   if \<not> P value then obj_set result key value else result) (k # ks) acc =
                fold (\<lambda>key result. let value = g key in
                   if \<not> P value then obj_set result key value else result) ks ?acc'"
    by (simp add: Let_def)
  show ?case by (simp only: unfold Cons.IH [OF np] step) auto
qed

lemma omit_loop_plain:
  "distinct ks \<Longrightarrow> set ks \<inter> set (object_keys acc) = {} \<Longrightarrow>
   \<forall>k \<in> set ks. array_index k = None \<and> k \<noteq> ''__proto__'' \<Longrightarrow>
   fold (\<lambda>key result. let value = g key in
           if \<not> P value then obj_set result key value else result) ks acc =
     acc @ map (\<lambda>k. (k, g k)) (filter (\<lambda>k. \<not> P (g k)) ks)"
proof (induction ks arbitrary: acc)
  case Nil
  then show ?case by simp
next
  case (Cons k ks)
  let ?acc' = "if \<not> P (g k) then obj_set acc k (g k) else acc"
  have new: "k \<notin> set (object_keys acc)" and plain: "array_index k = None" "k \<noteq> ''__proto__''"
    using Cons.prems by auto
  have step: "?acc' = acc @ (if \<not> P (g k) then [(k, g k)] else [])"
    using new plain by (simp add: obj_set_def obj_define_def)
  have disj: "set ks \<inter> set (object_keys ?acc') = {}"
    using Cons.prems by (auto simp: step object_keys_def)
  have "fold (\<lambda>key result. let value = g key in
                if \<not> P value then obj_set result key value else result) ks ?acc' =
          ?acc' @ map (\<lambda>k. (k, g k)) (filter (\<lambda>k. \<not> P (g k)) ks)"
    using Cons.IH [OF _ disj] Cons.prems by simp
  then show ?case by (simp add: Let_def step)
qed

subsection \<open>omitBy and serializeObject\<close>

lemma wf_omitBy: "wf_obj (omitBy q P)"
  unfolding omitBy_def by (intro omit_loop_wf) (simp add: wf_obj_def object_keys_def)

lemma map_of_omitBy:
  "map_of (omitBy q (\<lambda>value. value = JUndefined)) x =
     (if x \<noteq> ''__proto__'' \<and> get_prop q x \<noteq> JUndefined then Some (get_prop q x) else None)"
  using omit_loop_map_of [where acc = "[]" and g = "get_prop q"
      and P = "\<lambda>value. value = JUndefined" and ks = "object_keys q" and x = x]
    get_prop_defined_key [of q x]
  by (auto simp: omitBy_def object_keys_def)

lemma get_prop_omitBy:
  "get_prop (omitBy q (\<lambda>value. value = JUndefined)) k =
     (if k = ''__proto__'' then JUndefined else get_prop q k)"
  by (simp add: get_prop_def [of "omitBy q (\<lambda>value. value = JUndefined)"] map_of_omitBy)

lemma keys_omitBy:
  "set (object_keys (omitBy q (\<lambda>value. value = JUndefined))) =
     {k. k \<noteq> ''__proto__'' \<and> get_prop q k \<noteq> JUndefined}"
  by (simp add: keys_dom map_of_omitBy)

lemma omitBy_plain:
  assumes "wf_obj q" and "\<forall>k \<in> set (object_keys q). array_index k = None \<and> k \<noteq> ''__proto__''"
  shows "omitBy q (\<lambda>value. value = JUndefined) =
           map (\<lambda>k. (k, get_prop q k)) (filter (\<lambda>k. get_prop q k \<noteq> JUndefined) (object_keys q))"
  using omit_loop_plain [where ks = "object_keys q" and acc = "[]"
      and P = "\<lambda>value. value = JUndefined" and g = "get_prop q"] assms
  by (simp add: omitBy_def wf_obj_def) (simp add: object_keys_def)

lemma serializeObject_agree_but_proto:
  assumes "\<forall>k. k \<noteq> ''__proto__'' \<longrightarrow> get_prop q1 k = get_prop q2 k"
  shows "serializeObject ser q1 True = serializeObject ser q2 True"
proof -
  let ?f1 = "omitBy q1 (\<lambda>value. value = JUndefined)"
  let ?f2 = "omitBy q2 (\<lambda>value. value = JUndefined)"
  have "set (object_keys ?f1) = set (object_keys ?f2)"
    using assms by (auto simp: keys_omitBy)
  then have keys: "sort (object_keys ?f1) = sort (object_keys ?f2)"
    using wf_omitBy [of q1] wf_omitBy [of q2]
    by (intro sort_distinct_set) (simp_all add: wf_obj_def)
  have props: "get_prop ?f1 = get_prop ?f2"
    using assms by (simp add: fun_eq_iff get_prop_omitBy)
  show ?thesis by (simp add: serializeObject_def Let_def keys props)
qed

lemma serializeObject_agree:
  assumes "\<forall>k. get_prop q1 k = get_prop q2 k"
  shows "serializeObject ser q1 True = serializeObject ser q2 True"
  using assms by (intro serializeObject_agree_but_proto) simp

lemma serializeObject_canonical:
  assumes wf: "wf_obj q"
    and plain: "\<forall>k \<in> set (object_keys q). array_index k = None \<and> k \<noteq> ''__proto__''"
  shows "serializeObject ser q True = ser (canonical_record q)"
proof -
  let ?f = "omitBy q (\<lambda>value. value = JUndefined)"
  let ?ks = "sort (object_keys ?f)"
  have fk: "object_keys ?f = filter (\<lambda>k. get_prop q k \<noteq> JUndefined) (object_keys q)"
    by (simp add: omitBy_plain [OF wf plain] object_keys_def comp_def)
  have d: "distinct ?ks" using wf_omitBy [of q] by (simp add: wf_obj_def)
  have p: "\<forall>k \<in> set ?ks. array_index k = None \<and> k \<noteq> ''__proto__''"
    using plain by (simp add: fk)
  have "fold (\<lambda>key acc. obj_set acc key (get_prop ?f key)) ?ks [] =
          map (\<lambda>k. (k, get_prop ?f k)) ?ks"
    using omit_loop_plain [OF d _ p, where acc = "[]" and P = "\<lambda>value. False"
        and g = "get_prop ?f"]
    by (simp add: object_keys_def)
  also have "\<dots> = map (\<lambda>k. (k, get_prop q k)) ?ks"
    using p by (intro map_cong) (simp_all add: get_prop_omitBy)
  also have "\<dots> = canonical_record q"
    by (simp add: canonical_record_def fk)
  finally show ?thesis by (simp add: serializeObject_def Let_def)
qed

lemma get_prop_filter_proto:
  "get_prop (filter (\<lambda>(k, v). k \<noteq> f) q) k = (if k = f then JUndefined else get_prop q k)"
proof -
  have "map_of (filter (\<lambda>(k, v). k \<noteq> f) q) k = (if k = f then None else map_of q k)"
    by (induction q) auto
  then show ?thesis by (simp add: get_prop_def)
qed

lemma serializeObject_without_proto:
  "serializeObject ser q True =
   serializeObject ser (filter (\<lambda>(k, v). k \<noteq> ''__proto__'') q) True"
  by (intro serializeObject_agree_but_proto) (simp add: get_prop_filter_proto)

lemma serializeObject_canonical_without_proto:
  assumes wf: "wf_obj q" and plain: "\<forall>k \<in> set (object_keys q). array_index k = None"
  shows "serializeObject ser q True =
           ser (canonical_record (filter (\<lambda>(k, v). k \<noteq> ''__proto__'') q))"
proof -
  let ?q = "filter (\<lambda>(k, v). k \<noteq> ''__proto__'') q"
  have wf': "wf_obj ?q"
    using wf by (simp add: wf_obj_def object_keys_def distinct_map_filter)
  have plain': "\<forall>k \<in> set (object_keys ?q). array_index k = None \<and> k \<noteq> ''__proto__''"
    using plain by (auto simp: object_keys_def)
  show ?thesis
    using serializeObject_without_proto [of ser q] serializeObject_canonical [OF wf' plain', of ser]
    by simp
qed

text \<open>
  C3, as the code has it: two stores whose queries agree on every property read (the same
  fields with the same values, nested objects in the same key order; the order of the
  fields of the query and fields that are present with the value \<^verbatim>\<open>undefined\<close> do not
  count) get the same cache key from \<open>getCacheKey\<close>, whatever the serializer. The key
  does not depend on an own field named \<^verbatim>\<open>__proto__\<close>. When the query is an object with
  no field name that is an array index, the serializer is given exactly the fields, other
  than \<^verbatim>\<open>__proto__\<close>, that are not \<^verbatim>\<open>undefined\<close>, sorted by name.
\<close>

theorem getCacheKey_agree:
  assumes "\<forall>k. get_prop (getQuery st1) k = get_prop (getQuery st2) k"
  shows "fst (getCacheKey ser st1) = fst (getCacheKey ser st2) \<and>
         fst (getCacheKey ser st1) =
           serializeObject ser (filter (\<lambda>(k, v). k \<noteq> ''__proto__'') (getQuery st1)) True \<and>
         (wf_obj (getQuery st1) \<and>
          (\<forall>k \<in> set (object_keys (getQuery st1)). array_index k = None) \<longrightarrow>
            fst (getCacheKey ser st1) =
              ser (canonical_record (filter (\<lambda>(k, v). k \<noteq> ''__proto__'') (getQuery st1))))"
  using assms serializeObject_without_proto [of ser "getQuery st1"]
  by (simp add: getCacheKey_def serializeObject_agree [of "getQuery st1" "getQuery st2"]
        serializeObject_canonical_without_proto)

theorem getCacheKey_agree_witness:
  \<open>(\<forall>k. get_prop [(''page'', JNum 1), (''q'', JUndefined)] k = get_prop [(''page'', JNum 1)] k) \<and>
   (\<forall>k. get_prop [(''page'', JNum 1)] k = get_prop [(''q'', JUndefined), (''page'', JNum 1)] k) \<and>
   wf_obj [(''page'', JNum 1), (''q'', JUndefined)] \<and>
   fst (getCacheKey json_serialize
         (new_QueryResultStore \<lparr>query = [(''page'', JNum 1), (''q'', JUndefined)], result = [], transient = []\<rparr>))
     = fst (getCacheKey json_serialize
         (new_QueryResultStore \<lparr>query = [(''page'', JNum 1)], result = [], transient = []\<rparr>)) \<and>
   fst (getCacheKey json_serialize
         (new_QueryResultStore \<lparr>query = [(''page'', JNum 1)], result = [], transient = []\<rparr>))
     = fst (getCacheKey json_serialize
         (new_QueryResultStore \<lparr>query = [(''q'', JUndefined), (''page'', JNum 1)], result = [], transient = []\<rparr>)) \<and>
   fst (getCacheKey json_serialize
         (new_QueryResultStore \<lparr>query = [(''page'', JNum 1), (''q'', JUndefined)], result = [], transient = []\<rparr>))
     = json_serialize [(''page'', JNum 1)] \<and>
   json_serialize [(''page'', JNum 1)] = Inr ''{"page":1}''\<close>
proof -
  let ?a = "new_QueryResultStore \<lparr>query = [(''page'', JNum 1), (''q'', JUndefined)], result = [], transient = []\<rparr>"
  let ?b = "new_QueryResultStore \<lparr>query = [(''page'', JNum 1)], result = [], transient = []\<rparr>"
  let ?c = "new_QueryResultStore \<lparr>query = [(''q'', JUndefined), (''page'', JNum 1)], result = [], transient = []\<rparr>"
  have q: "getQuery ?a = [(''page'', JNum 1), (''q'', JUndefined)]" "getQuery ?b = [(''page'', JNum 1)]"
    "getQuery ?c = [(''q'', JUndefined), (''page'', JNum 1)]"
    by (simp_all add: eval_store)
  have wf: "wf_obj (getQuery ?a)"
    by (simp add: q wf_obj_def object_keys_def)
  have ab: "\<forall>k. get_prop (getQuery ?a) k = get_prop (getQuery ?b) k"
    and bc: "\<forall>k. get_prop (getQuery ?b) k = get_prop (getQuery ?c) k"
    by (simp_all add: q get_prop_def)
  have plain: "\<forall>k \<in> set (object_keys (getQuery ?a)). array_index k = None"
    by (simp add: q object_keys_def array_index_nondigit is_digit_def)
  have canon: "canonical_record (filter (\<lambda>(k, v). k \<noteq> ''__proto__'') (getQuery ?a))
                 = [(''page'', JNum 1)]"
    by (simp add: q canonical_record_def object_keys_def get_prop_def)
  have js: \<open>json_serialize [(''page'', JNum 1)] = Inr ''{"page":1}''\<close>
    by (simp add: eval_json)
  note t1 = getCacheKey_agree [OF ab, of json_serialize]
  note t2 = getCacheKey_agree [OF bc, of json_serialize]
  have e1: "fst (getCacheKey json_serialize ?a) = fst (getCacheKey json_serialize ?b)"
    using t1 by (rule conjunct1)
  have e2: "fst (getCacheKey json_serialize ?b) = fst (getCacheKey json_serialize ?c)"
    using t2 by (rule conjunct1)
  have e3: "fst (getCacheKey json_serialize ?a) = json_serialize [(''page'', JNum 1)]"
    using t1 [THEN conjunct2, THEN conjunct2, THEN mp, OF conjI [OF wf plain]]
    by (simp only: canon)
  show ?thesis
    using ab [unfolded q] bc [unfolded q] wf [unfolded q] e1 e2 e3 js
    by - (intro conjI; assumption)
qed

text \<open>
  Where the claim fails as it is written. Field names that are array indices are
  enumerated in numeric order, whatever the order in which they were assigned: for the
  query \<^verbatim>\<open>{"10": 2, "2": 3}\<close> the key is that of the record with \<^verbatim>\<open>"2"\<close> first, not of
  the record sorted by name. Two queries whose field holds the same nested fields in a
  different order get different keys. A field named \<^verbatim>\<open>__proto__\<close> is not part of the
  key although its value is not \<^verbatim>\<open>undefined\<close>.
\<close>

theorem cache_key_not_sorted_record:
  \<open>fst (getCacheKey json_serialize
         (new_QueryResultStore \<lparr>query = [(''2'', JNum 3), (''10'', JNum 2)], result = [], transient = []\<rparr>))
     = Inr ''{"2":3,"10":2}'' \<and>
   json_serialize (canonical_record [(''2'', JNum 3), (''10'', JNum 2)]) = Inr ''{"10":2,"2":3}'' \<and>
   fst (getCacheKey json_serialize
         (new_QueryResultStore \<lparr>query = [(''2'', JNum 3), (''10'', JNum 2)], result = [], transient = []\<rparr>))
     \<noteq> json_serialize (canonical_record [(''2'', JNum 3), (''10'', JNum 2)]) \<and>
   (\<forall>k. get_prop [(''x'', JNum 1), (''y'', JNum 2)] k = get_prop [(''y'', JNum 2), (''x'', JNum 1)] k) \<and>
   fst (getCacheKey json_serialize
         (new_QueryResultStore
            \<lparr>query = [(''f'', JObj [(''x'', JNum 1), (''y'', JNum 2)])], result = [], transient = []\<rparr>))
     \<noteq> fst (getCacheKey json_serialize
         (new_QueryResultStore
            \<lparr>query = [(''f'', JObj [(''y'', JNum 2), (''x'', JNum 1)])], result = [], transient = []\<rparr>)) \<and>
   fst (getCacheKey json_serialize
         (new_QueryResultStore
            \<lparr>query = [(''__proto__'', JNum 7), (''page'', JNum 1)], result = [], transient = []\<rparr>))
     = Inr ''{"page":1}''\<close>
proof -
  have idx: "array_index ''2'' = Some 2" "array_index ''10'' = Some 10"
    by (simp_all add: array_index_def is_digit_def nat_of_string_def digit_val_def)
  have s: "sort [''2'', ''10''] = [''10'', ''2'']" by simp
  have k1: \<open>fst (getCacheKey json_serialize
         (new_QueryResultStore \<lparr>query = [(''2'', JNum 3), (''10'', JNum 2)], result = [], transient = []\<rparr>))
     = Inr ''{"2":3,"10":2}''\<close>
    by (simp add: eval_store eval_obj eval_json idx s)
  have k2: \<open>json_serialize (canonical_record [(''2'', JNum 3), (''10'', JNum 2)]) = Inr ''{"10":2,"2":3}''\<close>
    by (simp add: canonical_record_def eval_obj eval_json s)
  have k3: \<open>fst (getCacheKey json_serialize
         (new_QueryResultStore \<lparr>query = [(''2'', JNum 3), (''10'', JNum 2)], result = [], transient = []\<rparr>))
     \<noteq> json_serialize (canonical_record [(''2'', JNum 3), (''10'', JNum 2)])\<close>
    by (simp only: k1 k2) simp
  have n1: "\<forall>k. get_prop [(''x'', JNum 1), (''y'', JNum 2)] k = get_prop [(''y'', JNum 2), (''x'', JNum 1)] k"
    by (simp add: get_prop_def)
  have n2: "fst (getCacheKey json_serialize
         (new_QueryResultStore
            \<lparr>query = [(''f'', JObj [(''x'', JNum 1), (''y'', JNum 2)])], result = [], transient = []\<rparr>))
     \<noteq> fst (getCacheKey json_serialize
         (new_QueryResultStore
            \<lparr>query = [(''f'', JObj [(''y'', JNum 2), (''x'', JNum 1)])], result = [], transient = []\<rparr>))"
    by (simp add: eval_store eval_obj eval_json)
  have p: \<open>fst (getCacheKey json_serialize
         (new_QueryResultStore
            \<lparr>query = [(''__proto__'', JNum 7), (''page'', JNum 1)], result = [], transient = []\<rparr>))
     = Inr ''{"page":1}''\<close>
    by (simp add: eval_store eval_obj eval_json)
  show ?thesis using k1 k2 k3 n1 n2 p by - (intro conjI; assumption)
qed

section \<open>removeOldestEntry\<close>

lemma jsmap_delete_first:
  "wf_jsmap ((k, v) # rest) \<Longrightarrow> jsmap_delete ((k, v) # rest) k = rest"
proof -
  assume "wf_jsmap ((k, v) # rest)"
  then have "k \<notin> fst ` set rest" by (simp add: wf_jsmap_def)
  then have "filter (\<lambda>(k', v'). k' \<noteq> k) rest = rest"
    by (induction rest) auto
  then show ?thesis by (simp add: jsmap_delete_def)
qed

lemma removeOldestEntry_Nil: "removeOldestEntry [] = []"
  by (simp add: removeOldestEntry_def jsmap_first_key_def)

lemma removeOldestEntry_Cons:
  "wf_jsmap ((k, v) # rest) \<Longrightarrow>
   removeOldestEntry ((k, v) # rest) = (if k \<noteq> JUndefined then rest else (k, v) # rest)"
  using jsmap_delete_first [of k v rest]
  by (simp add: removeOldestEntry_def jsmap_first_key_def)

lemma length_removeOldestEntry: "length (removeOldestEntry m) \<le> length m"
  by (simp add: removeOldestEntry_def jsmap_delete_def Let_def)

text \<open>
  C8: on a map (its keys distinct) \<open>removeOldestEntry\<close> removes at most one entry. When the
  map is not empty and its first key is not \<^verbatim>\<open>undefined\<close>, the result is the map without
  its first entry, the other entries and their order unchanged; on the empty map, and when
  the first key is \<^verbatim>\<open>undefined\<close>, the map is returned as it is. The function is total:
  there is no input on which it throws.
\<close>

theorem removeOldestEntry_at_most_one:
  assumes "wf_jsmap m"
  shows "(m \<noteq> [] \<and> jsmap_first_key m \<noteq> JUndefined \<longrightarrow> removeOldestEntry m = tl m) \<and>
         (m = [] \<or> jsmap_first_key m = JUndefined \<longrightarrow> removeOldestEntry m = m) \<and>
         length m - length (removeOldestEntry m) \<le> 1 \<and>
         (\<exists>dropped. length dropped \<le> 1 \<and> m = dropped @ removeOldestEntry m)"
proof (cases m)
  case Nil
  then show ?thesis by (simp add: removeOldestEntry_Nil jsmap_first_key_def)
next
  case (Cons a rest)
  obtain k v where a: "a = (k, v)" by (cases a)
  have r: "removeOldestEntry m = (if k \<noteq> JUndefined then rest else m)"
    using assms removeOldestEntry_Cons [of k v rest] by (simp add: Cons a)
  have fk: "jsmap_first_key m = k" by (simp add: Cons a jsmap_first_key_def)
  show ?thesis
  proof (cases "k = JUndefined")
    case True
    then show ?thesis using r fk Cons by simp
  next
    case False
    have "m = [a] @ rest" by (simp add: Cons)
    then have "\<exists>dropped. length dropped \<le> 1 \<and> m = dropped @ rest"
      by (intro exI [of _ "[a]"]) simp
    then show ?thesis using False r fk Cons by simp
  qed
qed

theorem removeOldestEntry_at_most_one_witness:
  "wf_jsmap [(JStr ''a'', 1 :: nat), (JStr ''b'', 2)] \<and>
   removeOldestEntry [(JStr ''a'', 1 :: nat), (JStr ''b'', 2)] = [(JStr ''b'', 2)] \<and>
   wf_jsmap [(JUndefined, 1 :: nat), (JStr ''b'', 2)] \<and>
   removeOldestEntry [(JUndefined, 1 :: nat), (JStr ''b'', 2)] = [(JUndefined, 1), (JStr ''b'', 2)] \<and>
   removeOldestEntry ([] :: nat jsmap) = []"
proof -
  have w1: "wf_jsmap [(JStr ''a'', 1 :: nat), (JStr ''b'', 2)]"
    and w2: "wf_jsmap [(JUndefined, 1 :: nat), (JStr ''b'', 2)]"
    and w3: "wf_jsmap ([] :: nat jsmap)"
    by (simp_all add: wf_jsmap_def)
  show ?thesis
    using w1 w2 removeOldestEntry_at_most_one [OF w1] removeOldestEntry_at_most_one [OF w2]
      removeOldestEntry_at_most_one [OF w3]
    by (simp add: jsmap_first_key_def)
qed

section \<open>Notifications of a StateSubject\<close>

lemma update_fields:
  "current (update v s) = v"
  "lastEmitted (update v s) = v"
  "delivered (update v s) = delivered s @ (if v \<noteq> lastEmitted s then [v] else [])"
  "initialValue (update v s) = initialValue s"
  by (simp_all add: update_def Let_def)

lemma gated_remdups_adj: "prev # gated prev vs = remdups_adj (prev # vs)"
  by (induction vs arbitrary: prev) auto

lemma last_gated: "last (prev # gated prev vs) = last (prev # vs)"
  by (simp only: gated_remdups_adj last_remdups_adj)

lemma delivered_fold_update:
  "delivered (fold update vs s) = delivered s @ gated (lastEmitted s) vs"
  by (induction vs arbitrary: s) (simp_all add: update_fields)

lemma lastEmitted_fold_update:
  "lastEmitted (fold update vs s) = last (lastEmitted s # vs)"
  by (induction vs arbitrary: s) (simp_all add: update_fields)

lemma current_fold_update:
  "current (fold update vs s) = last (current s # vs)"
  by (induction vs arbitrary: s) (simp_all add: update_fields)

text \<open>
  C7: after a sequence of \<open>update\<close> calls the subscriber has received, beyond what it had,
  exactly the values that differ from the value delivered before them (\<open>gated\<close>, which is
  \<open>remdups_adj\<close> without its head); \<open>lastEmitted\<close> is the last delivered value, and a
  single \<open>update\<close> moves it exactly when it delivers; \<open>current\<close> is the last value
  passed, delivered or not.
\<close>

theorem update_delivers_changes:
  "delivered (fold update vs s) = delivered s @ gated (lastEmitted s) vs \<and>
   lastEmitted (fold update vs s) = last (lastEmitted s # gated (lastEmitted s) vs) \<and>
   current (fold update vs s) = last (current s # vs) \<and>
   lastEmitted s # gated (lastEmitted s) vs = remdups_adj (lastEmitted s # vs) \<and>
   delivered (update v s) = delivered s @ (if v \<noteq> lastEmitted s then [v] else []) \<and>
   (lastEmitted (update v s) \<noteq> lastEmitted s) = (delivered (update v s) \<noteq> delivered s)"
  using delivered_fold_update [of vs s] lastEmitted_fold_update [of vs s]
    current_fold_update [of vs s] last_gated [of "lastEmitted s" vs]
    gated_remdups_adj [of "lastEmitted s" vs]
  by (simp add: update_fields del: remdups_adj.simps last.simps)

theorem update_delivers_changes_witness:
  "delivered (fold update [1, 1, 2, 2, 1 :: nat] (new_StateSubject 1)) = [1, 2, 1] \<and>
   lastEmitted (fold update [1, 1, 2, 2, 1 :: nat] (new_StateSubject 1)) = 1 \<and>
   current (fold update [1, 1, 2, 2, 1 :: nat] (new_StateSubject 1)) = 1"
  using update_delivers_changes [of "[1, 1, 2, 2, 1 :: nat]" "new_StateSubject 1" 1]
  by (simp add: new_StateSubject_def)

section \<open>setState, setQuery and setTransient\<close>

lemma setState_fields:
  "getState (setState p st) = shallow_merge (getState st) p"
  "cache (setState p st) = cache st"
  "useCaching (setState p st) = useCaching st"
  "cacheLimit (setState p st) = cacheLimit st"
  by (simp_all add: setState_def getState_def update_fields)

lemma setQuery_fields:
  "getQuery (setQuery q st) = merge_objects (getQuery st) q"
  "getResult (setQuery q st) = getResult st"
  "getTransient (setQuery q st) = getTransient st"
  "cache (setQuery q st) = cache st"
  "useCaching (setQuery q st) = useCaching st"
  "cacheLimit (setQuery q st) = cacheLimit st"
  by (simp_all add: setQuery_def getQuery_def getResult_def getTransient_def setState_fields
      shallow_merge_def no_change_def)

lemma setTransient_fields:
  "getTransient (setTransient t st) = merge_objects (getTransient st) t"
  "getResult (setTransient t st) = getResult st"
  "getQuery (setTransient t st) = getQuery st"
  "cache (setTransient t st) = cache st"
  "useCaching (setTransient t st) = useCaching st"
  "cacheLimit (setTransient t st) = cacheLimit st"
  by (simp_all add: setTransient_def getQuery_def getResult_def getTransient_def setState_fields
      shallow_merge_def no_change_def)

text \<open>
  C6: \<open>setQuery\<close> replaces the query by the merge of the query with the partial query and
  leaves the result and the transient data as they are; \<open>setTransient\<close> does the same for
  the transient data and leaves the query and the result as they are. On objects the merge
  is shallow: a field of the partial object takes the partial object's value, every other
  field keeps its own.
\<close>

theorem setQuery_setTransient_frame:
  "getQuery (setQuery q st) = merge_objects (getQuery st) q \<and>
   getResult (setQuery q st) = getResult st \<and>
   getTransient (setQuery q st) = getTransient st \<and>
   getTransient (setTransient t st) = merge_objects (getTransient st) t \<and>
   getQuery (setTransient t st) = getQuery st \<and>
   getResult (setTransient t st) = getResult st \<and>
   (wf_obj (getQuery st) \<and> wf_obj q \<longrightarrow>
      (\<forall>k. get_prop (getQuery (setQuery q st)) k =
             (if k \<in> set (object_keys q) then get_prop q k else get_prop (getQuery st) k))) \<and>
   (wf_obj (getTransient st) \<and> wf_obj t \<longrightarrow>
      (\<forall>k. get_prop (getTransient (setTransient t st)) k =
             (if k \<in> set (object_keys t) then get_prop t k else get_prop (getTransient st) k)))"
  by (simp add: setQuery_fields setTransient_fields get_prop_merge_objects)

theorem setQuery_setTransient_frame_witness:
  "wf_obj [(''q'', JStr ''''), (''page'', JNum 1)] \<and> wf_obj [(''q'', JStr ''books'')] \<and>
   wf_obj [(''loading'', JBool False)] \<and> wf_obj [(''loading'', JBool True)] \<and>
   getQuery (setQuery [(''q'', JStr ''books'')]
     (new_QueryResultStore \<lparr>query = [(''q'', JStr ''''), (''page'', JNum 1)],
        result = [(''items'', JArr [])], transient = [(''loading'', JBool False)]\<rparr>))
     = [(''q'', JStr ''books''), (''page'', JNum 1)] \<and>
   getResult (setQuery [(''q'', JStr ''books'')]
     (new_QueryResultStore \<lparr>query = [(''q'', JStr ''''), (''page'', JNum 1)],
        result = [(''items'', JArr [])], transient = [(''loading'', JBool False)]\<rparr>))
     = [(''items'', JArr [])] \<and>
   getTransient (setQuery [(''q'', JStr ''books'')]
     (new_QueryResultStore \<lparr>query = [(''q'', JStr ''''), (''page'', JNum 1)],
        result = [(''items'', JArr [])], transient = [(''loading'', JBool False)]\<rparr>))
     = [(''loading'', JBool False)] \<and>
   getTransient (setTransient [(''loading'', JBool True)]
     (new_QueryResultStore \<lparr>query = [(''q'', JStr ''''), (''page'', JNum 1)],
        result = [(''items'', JArr [])], transient = [(''loading'', JBool False)]\<rparr>))
     = [(''loading'', JBool True)] \<and>
   getQuery (setTransient [(''loading'', JBool True)]
     (new_QueryResultStore \<lparr>query = [(''q'', JStr ''''), (''page'', JNum 1)],
        result = [(''items'', JArr [])], transient = [(''loading'', JBool False)]\<rparr>))
     = [(''q'', JStr ''''), (''page'', JNum 1)] \<and>
   getResult (setTransient [(''loading'', JBool True)]
     (new_QueryResultStore \<lparr>query = [(''q'', JStr ''''), (''page'', JNum 1)],
        result = [(''items'', JArr [])], transient = [(''loading'', JBool False)]\<rparr>))
     = [(''items'', JArr [])]"
proof -
  let ?st = "new_QueryResultStore \<lparr>query = [(''q'', JStr ''''), (''page'', JNum 1)],
        result = [(''items'', JArr [])], transient = [(''loading'', JBool False)]\<rparr>"
  have init: "getQuery ?st = [(''q'', JStr ''''), (''page'', JNum 1)]"
    "getResult ?st = [(''items'', JArr [])]" "getTransient ?st = [(''loading'', JBool False)]"
    by (simp_all add: eval_store)
  have m: "merge_objects [(''q'', JStr ''''), (''page'', JNum 1)] [(''q'', JStr ''books'')]
             = [(''q'', JStr ''books''), (''page'', JNum 1)]"
    "merge_objects [(''loading'', JBool False)] [(''loading'', JBool True)]
             = [(''loading'', JBool True)]"
    by (simp_all add: eval_obj)
  have wf: "wf_obj [(''q'', JStr ''''), (''page'', JNum 1)]" "wf_obj [(''q'', JStr ''books'')]"
    "wf_obj [(''loading'', JBool False)]" "wf_obj [(''loading'', JBool True)]"
    by (simp_all add: wf_obj_def object_keys_def)
  show ?thesis
    using setQuery_setTransient_frame [of "[(''q'', JStr ''books'')]" ?st "[(''loading'', JBool True)]"] wf
    by (simp only: init m)
qed

section \<open>Reading the cache\<close>

lemma getCacheKey_snd: "snd (getCacheKey ser st) = st"
  by (simp add: getCacheKey_def)

lemma getCachedResult_snd: "snd (getCachedResult ser st) = st"
  by (simp add: getCachedResult_def getCacheKey_def split: sum.splits)

text \<open>
  C10: \<open>getCachedResult\<close> and \<open>getCacheKey\<close> return the store they were called on: the
  state, the cache entries and their order, and the two settings are the same afterwards.
  Calling either again, in any order, returns the same result.
\<close>

theorem reads_leave_store_unchanged:
  "snd (getCachedResult ser st) = st \<and>
   snd (getCacheKey ser st) = st \<and>
   fst (getCachedResult ser (snd (getCachedResult ser st))) = fst (getCachedResult ser st) \<and>
   fst (getCacheKey ser (snd (getCacheKey ser st))) = fst (getCacheKey ser st) \<and>
   fst (getCachedResult ser (snd (getCacheKey ser st))) = fst (getCachedResult ser st) \<and>
   fst (getCacheKey ser (snd (getCachedResult ser st))) = fst (getCacheKey ser st) \<and>
   cache (snd (getCachedResult ser st)) = cache st \<and>
   getState (snd (getCachedResult ser st)) = getState st"
  by (simp add: getCacheKey_snd getCachedResult_snd)

theorem reads_leave_store_unchanged_witness:
  \<open>fst (getCachedResult json_serialize
      (run_ops json_serialize [ShouldCache True, SetResult [(''items'', JArr [JStr ''A''])]]
        (new_QueryResultStore
          \<lparr>query = [(''page'', JNum 1)], result = [(''items'', JArr [])], transient = []\<rparr>)))
     = Inr (Some [(''items'', JArr [JStr ''A''])]) \<and>
   fst (getCachedResult json_serialize (snd (getCachedResult json_serialize
      (run_ops json_serialize [ShouldCache True, SetResult [(''items'', JArr [JStr ''A''])]]
        (new_QueryResultStore
          \<lparr>query = [(''page'', JNum 1)], result = [(''items'', JArr [])], transient = []\<rparr>)))))
     = Inr (Some [(''items'', JArr [JStr ''A''])]) \<and>
   cache (snd (getCachedResult json_serialize
      (run_ops json_serialize [ShouldCache True, SetResult [(''items'', JArr [JStr ''A''])]]
        (new_QueryResultStore
          \<lparr>query = [(''page'', JNum 1)], result = [(''items'', JArr [])], transient = []\<rparr>))))
     = [(JStr ''{"page":1}'', [(''items'', JArr [JStr ''A''])])]\<close>
proof -
  let ?st = "run_ops json_serialize [ShouldCache True, SetResult [(''items'', JArr [JStr ''A''])]]
        (new_QueryResultStore
          \<lparr>query = [(''page'', JNum 1)], result = [(''items'', JArr [])], transient = []\<rparr>)"
  have r: "fst (getCachedResult json_serialize ?st) = Inr (Some [(''items'', JArr [JStr ''A''])])"
    by (simp add: eval_store eval_map eval_obj eval_json)
  have c: \<open>cache ?st = [(JStr ''{"page":1}'', [(''items'', JArr [JStr ''A''])])]\<close>
    by (simp add: eval_store eval_map eval_obj eval_json)
  show ?thesis
    using reads_leave_store_unchanged [of json_serialize ?st] r c by (simp only:)
qed

section \<open>Caching switched off\<close>

lemma cacheResult_disabled: "\<not> useCaching st \<Longrightarrow> cacheResult ser r st = (Inr (), st)"
  by (simp add: cacheResult_def)


lemma shouldCache_fields:
  "useCaching (shouldCache v st) = v"
  "cache (shouldCache v st) = cache st"
  "cacheLimit (shouldCache v st) = cacheLimit st"
  "getState (shouldCache v st) = getState st"
  "getQuery (shouldCache v st) = getQuery st"
  by (simp_all add: shouldCache_def getState_def getQuery_def)





section \<open>A field set to undefined\<close>

lemma map_of_filter_key:
  "map_of (filter (\<lambda>(k', v'). k' \<noteq> f) q) k = (if k = f then None else map_of q k)"
  by (induction q) auto

lemma get_prop_filter_key:
  "get_prop (filter (\<lambda>(k', v'). k' \<noteq> f) q) k = (if k = f then JUndefined else get_prop q k)"
  by (simp add: get_prop_def map_of_filter_key)

text \<open>
  C9: on a store whose query is an object, \<open>setQuery\<close> with a partial query \<open>p\<close> in which
  the field \<open>f\<close> is present with the value \<^verbatim>\<open>undefined\<close> leaves \<open>f\<close> present in the stored
  query with the value \<^verbatim>\<open>undefined\<close>, and the fields that \<open>p\<close> does not name as they
  were; the cache key is then the key of the stored query without the field \<open>f\<close>. When
  \<open>f\<close> is the only field of \<open>p\<close>, that is the key of the query before the call without
  the field \<open>f\<close>.
\<close>

theorem setQuery_undefined_field:
  assumes "wf_obj (getQuery st)" and "wf_obj p"
    and "f \<in> set (object_keys p)" and "get_prop p f = JUndefined"
  shows "f \<in> set (object_keys (getQuery (setQuery p st))) \<and>
         get_prop (getQuery (setQuery p st)) f = JUndefined \<and>
         (\<forall>k. k \<notin> set (object_keys p) \<longrightarrow>
            get_prop (getQuery (setQuery p st)) k = get_prop (getQuery st) k) \<and>
         (\<forall>k. k \<in> set (object_keys p) \<longrightarrow>
            get_prop (getQuery (setQuery p st)) k = get_prop p k) \<and>
         fst (getCacheKey ser (setQuery p st)) =
           serializeObject ser (filter (\<lambda>(k', v'). k' \<noteq> f) (getQuery (setQuery p st))) True \<and>
         (p = [(f, JUndefined)] \<longrightarrow>
            fst (getCacheKey ser (setQuery p st)) =
              serializeObject ser (filter (\<lambda>(k', v'). k' \<noteq> f) (getQuery st)) True)"
proof -
  let ?q = "getQuery st"
  let ?m = "merge_objects ?q p"
  have q': "getQuery (setQuery p st) = ?m" by (simp add: setQuery_fields)
  have props: "get_prop ?m k = (if k \<in> set (object_keys p) then get_prop p k else get_prop ?q k)" for k
    using get_prop_merge_objects [OF assms(1,2), of k] .
  have mem: "f \<in> set (object_keys ?m)"
    using assms(3) by (simp add: keys_merge_objects)
  have undef: "get_prop ?m f = JUndefined"
    using assms(3,4) by (simp add: props)
  have agree: "\<forall>k. get_prop ?m k = get_prop (filter (\<lambda>(k', v'). k' \<noteq> f) ?m) k"
    using undef by (simp add: get_prop_filter_key)
  have key: "serializeObject ser ?m True =
             serializeObject ser (filter (\<lambda>(k', v'). k' \<noteq> f) ?m) True"
    using serializeObject_agree [OF agree] .
  have single: "p = [(f, JUndefined)] \<longrightarrow>
      serializeObject ser ?m True = serializeObject ser (filter (\<lambda>(k', v'). k' \<noteq> f) ?q) True"
  proof
    assume p: "p = [(f, JUndefined)]"
    have "\<forall>k. get_prop ?m k = get_prop (filter (\<lambda>(k', v'). k' \<noteq> f) ?q) k"
      using undef by (simp add: props get_prop_filter_key) (simp add: p object_keys_def)
    then show "serializeObject ser ?m True =
                 serializeObject ser (filter (\<lambda>(k', v'). k' \<noteq> f) ?q) True"
      by (rule serializeObject_agree)
  qed
  have gk: "fst (getCacheKey ser (setQuery p st)) = serializeObject ser ?m True"
    by (simp add: getCacheKey_def q')
  have c1: "f \<in> set (object_keys (getQuery (setQuery p st)))"
    using mem by (simp only: q')
  have c2: "get_prop (getQuery (setQuery p st)) f = JUndefined"
    using undef by (simp only: q')
  have c3: "\<forall>k. k \<notin> set (object_keys p) \<longrightarrow>
              get_prop (getQuery (setQuery p st)) k = get_prop (getQuery st) k"
    by (simp add: q' props)
  have c4: "\<forall>k. k \<in> set (object_keys p) \<longrightarrow>
              get_prop (getQuery (setQuery p st)) k = get_prop p k"
    by (simp add: q' props)
  have c5: "fst (getCacheKey ser (setQuery p st)) =
              serializeObject ser (filter (\<lambda>(k', v'). k' \<noteq> f) (getQuery (setQuery p st))) True"
    using key by (simp only: gk q')
  have c6: "p = [(f, JUndefined)] \<longrightarrow>
              fst (getCacheKey ser (setQuery p st)) =
                serializeObject ser (filter (\<lambda>(k', v'). k' \<noteq> f) (getQuery st)) True"
    using single by (simp only: gk)
  show ?thesis using c1 c2 c3 c4 c5 c6 by - (intro conjI; assumption)
qed

theorem setQuery_undefined_field_witness:
  \<open>wf_obj (getQuery (new_QueryResultStore
      \<lparr>query = [(''q'', JStr ''books''), (''page'', JNum 1)], result = [], transient = []\<rparr>)) \<and>
   wf_obj [(''page'', JNum 2), (''q'', JUndefined)] \<and>
   ''q'' \<in> set (object_keys [(''page'', JNum 2), (''q'', JUndefined)]) \<and>
   get_prop [(''page'', JNum 2), (''q'', JUndefined)] ''q'' = JUndefined \<and>
   getQuery (setQuery [(''page'', JNum 2), (''q'', JUndefined)] (new_QueryResultStore
      \<lparr>query = [(''q'', JStr ''books''), (''page'', JNum 1)], result = [], transient = []\<rparr>))
     = [(''q'', JUndefined), (''page'', JNum 2)] \<and>
   fst (getCacheKey json_serialize (setQuery [(''page'', JNum 2), (''q'', JUndefined)]
      (new_QueryResultStore
        \<lparr>query = [(''q'', JStr ''books''), (''page'', JNum 1)], result = [], transient = []\<rparr>)))
     = Inr ''{"page":2}'' \<and>
   getQuery (setQuery [(''q'', JUndefined)] (new_QueryResultStore
      \<lparr>query = [(''q'', JStr ''books''), (''page'', JNum 1)], result = [], transient = []\<rparr>))
     = [(''q'', JUndefined), (''page'', JNum 1)] \<and>
   fst (getCacheKey json_serialize (setQuery [(''q'', JUndefined)] (new_QueryResultStore
      \<lparr>query = [(''q'', JStr ''books''), (''page'', JNum 1)], result = [], transient = []\<rparr>)))
     = Inr ''{"page":1}'' \<and>
   fst (getCacheKey json_serialize (new_QueryResultStore
      \<lparr>query = [(''page'', JNum 1)], result = [], transient = []\<rparr>))
     = Inr ''{"page":1}''\<close>
proof -
  let ?st = "new_QueryResultStore
      \<lparr>query = [(''q'', JStr ''books''), (''page'', JNum 1)], result = [], transient = []\<rparr>"
  let ?p = "[(''page'', JNum 2), (''q'', JUndefined)]"
  have q: "getQuery ?st = [(''q'', JStr ''books''), (''page'', JNum 1)]"
    by (simp add: eval_store)
  have wf: "wf_obj (getQuery ?st)"
    by (simp add: q wf_obj_def object_keys_def)
  have wfp: "wf_obj ?p" and wf1: "wf_obj [(''q'', JUndefined)]"
    by (simp_all add: wf_obj_def object_keys_def)
  have mem: "''q'' \<in> set (object_keys ?p)" and mem1: "''q'' \<in> set (object_keys [(''q'', JUndefined)])"
    by (simp_all add: object_keys_def)
  have und: "get_prop ?p ''q'' = JUndefined" and und1: "get_prop [(''q'', JUndefined)] ''q'' = JUndefined"
    by (simp_all add: get_prop_def)
  have merged: "getQuery (setQuery ?p ?st) = [(''q'', JUndefined), (''page'', JNum 2)]"
    by (simp add: setQuery_fields q) (simp add: eval_obj)
  have merged1: "getQuery (setQuery [(''q'', JUndefined)] ?st) = [(''q'', JUndefined), (''page'', JNum 1)]"
    by (simp add: setQuery_fields q) (simp add: eval_obj)
  have key: \<open>serializeObject json_serialize
               (filter (\<lambda>(k', v'). k' \<noteq> ''q'') [(''q'', JUndefined), (''page'', JNum 2)]) True
             = Inr ''{"page":2}''\<close>
    by (simp add: serializeObject_def eval_obj eval_json)
  have key1: \<open>serializeObject json_serialize
               (filter (\<lambda>(k', v'). k' \<noteq> ''q'') [(''q'', JStr ''books''), (''page'', JNum 1)]) True
             = Inr ''{"page":1}''\<close>
    by (simp add: serializeObject_def eval_obj eval_json)
  have plain: \<open>fst (getCacheKey json_serialize (new_QueryResultStore
      \<lparr>query = [(''page'', JNum 1)], result = [], transient = []\<rparr>)) = Inr ''{"page":1}''\<close>
    by (simp add: eval_store eval_obj eval_json)
  note t = setQuery_undefined_field [OF wf wfp mem und, of json_serialize]
  note t1 = setQuery_undefined_field [OF wf wf1 mem1 und1, of json_serialize]
  have "fst (getCacheKey json_serialize (setQuery ?p ?st)) =
          serializeObject json_serialize
            (filter (\<lambda>(k', v'). k' \<noteq> ''q'') (getQuery (setQuery ?p ?st))) True"
    using t by (elim conjE)
  then have k: \<open>fst (getCacheKey json_serialize (setQuery ?p ?st)) = Inr ''{"page":2}''\<close>
    by (simp only: merged key)
  have "fst (getCacheKey json_serialize (setQuery [(''q'', JUndefined)] ?st)) =
          serializeObject json_serialize
            (filter (\<lambda>(k', v'). k' \<noteq> ''q'') (getQuery ?st)) True"
    using t1 [THEN conjunct2, THEN conjunct2, THEN conjunct2, THEN conjunct2, THEN conjunct2,
        THEN mp, OF refl] .
  then have k1: \<open>fst (getCacheKey json_serialize (setQuery [(''q'', JUndefined)] ?st)) = Inr ''{"page":1}''\<close>
    by (simp only: q key1)
  show ?thesis using wf wfp mem und merged k merged1 k1 plain by - (intro conjI; assumption)
qed

section \<open>Map operations\<close>

lemma jsmap_has_iff: "jsmap_has m k \<longleftrightarrow> map_of m k \<noteq> None"
  by (simp add: jsmap_has_def map_of_eq_None_iff)

lemma jsmap_get_set:
  "jsmap_get (jsmap_set m k v) k' = (if k' = k then Some v else jsmap_get m k')"
proof -
  have r: "map_of (map (\<lambda>(k', v'). if k' = k then (k', v) else (k', v')) m) x =
           (if x = k \<and> map_of m k \<noteq> None then Some v else map_of m x)" for x
    by (induction m) auto
  have a: "map_of (m @ [(k, v)]) x = (case map_of m x of None \<Rightarrow> if x = k then Some v else None | Some y \<Rightarrow> Some y)" for x
    by (induction m) auto
  show ?thesis
    by (auto simp add: jsmap_get_def jsmap_set_def jsmap_has_iff r a simp del: map_of_append
        split: option.splits)
qed

lemma jsmap_has_set: "jsmap_has (jsmap_set m k v) k' \<longleftrightarrow> k' = k \<or> jsmap_has m k'"
  using jsmap_get_set [of m k v k']
  by (simp add: jsmap_has_iff jsmap_get_def)

lemma keys_jsmap_set:
  "map fst (jsmap_set m k v) = (if jsmap_has m k then map fst m else map fst m @ [k])"
proof -
  have "map fst (map (\<lambda>(k', v'). if k' = k then (k', v) else (k', v')) m) = map fst m"
    by (induction m) auto
  then show ?thesis unfolding jsmap_set_def by (simp only: if_distrib [of "map fst"] map_append list.map fst_conv split: if_splits)
qed

lemma length_jsmap_set:
  "length (jsmap_set m k v) = (if jsmap_has m k then length m else Suc (length m))"
  by (simp add: jsmap_set_def)

lemma wf_jsmap_set: "wf_jsmap m \<Longrightarrow> wf_jsmap (jsmap_set m k v)"
  unfolding wf_jsmap_def keys_jsmap_set by (simp add: jsmap_has_def)

lemma wf_removeOldestEntry: "wf_jsmap m \<Longrightarrow> wf_jsmap (removeOldestEntry m)"
  by (simp add: wf_jsmap_def removeOldestEntry_def jsmap_delete_def Let_def distinct_map_filter)

section \<open>cacheResult and setResult\<close>

lemma cacheResult_enabled:
  assumes "useCaching st" and "fst (getCacheKey ser st) = Inr key"
  shows "cacheResult ser r st = (Inr (), st\<lparr>cache := jsmap_set (evict st) (JStr key) r\<rparr>)"
  using assms
  by (simp add: cacheResult_def getCacheKey_def getQuery_def getState_def evict_def at_capacity_def Let_def)

lemma cacheResult_throws:
  assumes "useCaching st" and "fst (getCacheKey ser st) = Inl e"
  shows "cacheResult ser r st = (Inl e, st\<lparr>cache := evict st\<rparr>)"
  using assms
  by (simp add: cacheResult_def getCacheKey_def getQuery_def getState_def evict_def at_capacity_def Let_def)

lemma setResult_enabled:
  assumes "useCaching st" and "fst (getCacheKey ser st) = Inr key"
  shows "setResult ser partial st =
           (Inr (), setState (no_change\<lparr>p_result := Some (merge_objects (getResult st) partial)\<rparr>)
                      (st\<lparr>cache := jsmap_set (evict st) (JStr key) (merge_objects (getResult st) partial)\<rparr>))"
  using cacheResult_enabled [OF assms]
  by (simp add: setResult_def getResult_def Let_def)

lemma setResult_throws:
  assumes "useCaching st" and "fst (getCacheKey ser st) = Inl e"
  shows "setResult ser partial st = (Inl e, st\<lparr>cache := evict st\<rparr>)"
  using cacheResult_throws [OF assms]
  by (simp add: setResult_def getResult_def Let_def)

lemma setResult_disabled:
  assumes "\<not> useCaching st"
  shows "setResult ser partial st =
           (Inr (), setState (no_change\<lparr>p_result := Some (merge_objects (getResult st) partial)\<rparr>) st)"
  using assms by (simp add: setResult_def cacheResult_def getResult_def Let_def)

lemma getCachedResult_enabled:
  assumes "useCaching st" and "fst (getCacheKey ser st) = Inr key"
  shows "fst (getCachedResult ser st) = Inr (jsmap_get (cache st) (JStr key))"
  using assms
  by (auto simp add: getCachedResult_def getCacheKey_def jsmap_has_iff jsmap_get_def)

lemma getState_cache_update: "getState (st\<lparr>cache := c\<rparr>) = getState st"
  by (simp add: getState_def)

lemma getCacheKey_cong:
  "getQuery st' = getQuery st \<Longrightarrow> fst (getCacheKey ser st') = fst (getCacheKey ser st)"
  by (simp add: getCacheKey_def)

lemma setResult_cached:
  assumes "useCaching st" and k: "fst (getCacheKey ser st) = Inr key"
  shows "fst (setResult ser partial st) = Inr () \<and>
         getResult (snd (setResult ser partial st)) = merge_objects (getResult st) partial \<and>
         getQuery (snd (setResult ser partial st)) = getQuery st \<and>
         getTransient (snd (setResult ser partial st)) = getTransient st \<and>
         cache (snd (setResult ser partial st)) =
           jsmap_set (evict st) (JStr key) (merge_objects (getResult st) partial) \<and>
         fst (getCachedResult ser (snd (setResult ser partial st))) =
           Inr (Some (merge_objects (getResult st) partial))"
proof (intro conjI)
  let ?new = "merge_objects (getResult st) partial"
  let ?st1 = "st\<lparr>cache := jsmap_set (evict st) (JStr key) ?new\<rparr>"
  let ?st2 = "setState (no_change\<lparr>p_result := Some ?new\<rparr>) ?st1"
  have eq: "setResult ser partial st = (Inr (), ?st2)"
    using setResult_enabled [OF assms(1) k] .
  have st1: "getState ?st1 = getState st" by (simp add: getState_def)
  have fields: "getResult ?st2 = ?new" "getQuery ?st2 = getQuery st" "getTransient ?st2 = getTransient st"
    "cache ?st2 = jsmap_set (evict st) (JStr key) ?new" "useCaching ?st2"
    using assms(1)
    by (simp_all add: getResult_def getQuery_def getTransient_def setState_fields
        getState_cache_update shallow_merge_def no_change_def)
  show "fst (setResult ser partial st) = Inr ()" by (simp add: eq)
  show "getResult (snd (setResult ser partial st)) = ?new" by (simp add: eq fields)
  show "getQuery (snd (setResult ser partial st)) = getQuery st" by (simp add: eq fields)
  show "getTransient (snd (setResult ser partial st)) = getTransient st" by (simp add: eq fields)
  show "cache (snd (setResult ser partial st)) = jsmap_set (evict st) (JStr key) ?new"
    by (simp add: eq fields)
  have k2: "fst (getCacheKey ser ?st2) = Inr key"
    using k getCacheKey_cong [OF fields(2), of ser] by simp
  show "fst (getCachedResult ser (snd (setResult ser partial st))) = Inr (Some ?new)"
    using getCachedResult_enabled [OF fields(5) k2]
    by (simp add: eq fields jsmap_get_set)
qed

lemma setResult_uncommitted:
  assumes "useCaching st" and e: "fst (getCacheKey ser st) = Inl e"
  shows "fst (setResult ser partial st) = Inl e \<and>
         getState (snd (setResult ser partial st)) = getState st"
  by (simp add: setResult_throws [OF assms] getState_def)

lemma setResult_fieldwise:
  assumes "useCaching st" and "fst (getCacheKey ser st) = Inr key"
    and "wf_obj (getResult st)" and "wf_obj partial"
  shows "(\<forall>k. get_prop (getResult (snd (setResult ser partial st))) k =
               (if k \<in> set (object_keys partial) then get_prop partial k
                else get_prop (getResult st) k)) \<and>
         (\<exists>c. fst (getCachedResult ser (snd (setResult ser partial st))) = Inr (Some c) \<and>
              (\<forall>k. get_prop c k =
                 (if k \<in> set (object_keys partial) then get_prop partial k
                  else get_prop (getResult st) k)))"
  using setResult_cached [OF assms(1,2), of partial] get_prop_merge_objects [OF assms(3,4)]
  by simp

lemma end_to_end_cache:
  assumes k1: "ser [(''page'', JNum 1)] = Inr k1" and k2: "ser [(''page'', JNum 2)] = Inr k2"
    and ne: "k1 \<noteq> k2"
  shows
    "fst (getCachedResult ser
       (snd (setResult ser [(''items'', JArr [JStr ''A''])]
         (shouldCache True (new_QueryResultStore
            \<lparr>query = [(''page'', JNum 1)], result = [(''items'', JArr [])], transient = t\<rparr>)))))
       = Inr (Some [(''items'', JArr [JStr ''A''])]) \<and>
     fst (getCachedResult ser
       (setQuery [(''page'', JNum 2)]
         (snd (setResult ser [(''items'', JArr [JStr ''A''])]
           (shouldCache True (new_QueryResultStore
              \<lparr>query = [(''page'', JNum 1)], result = [(''items'', JArr [])], transient = t\<rparr>))))))
       = Inr None \<and>
     fst (getCachedResult ser
       (setQuery [(''page'', JNum 1)]
         (setQuery [(''page'', JNum 2)]
           (snd (setResult ser [(''items'', JArr [JStr ''A''])]
             (shouldCache True (new_QueryResultStore
                \<lparr>query = [(''page'', JNum 1)], result = [(''items'', JArr [])], transient = t\<rparr>)))))))
       = Inr (Some [(''items'', JArr [JStr ''A''])])"
proof -
  have ne': "k2 \<noteq> k1" using ne by simp
  show ?thesis
    using k1 k2 ne ne' by (simp add: eval_store eval_map eval_obj)
qed

text \<open>
  C4: with caching enabled, \<open>setResult\<close> merges the partial result into the result and
  stores the merged result in the cache under the key of the query the store has at the
  call (the key does not depend on the partial result), after the eviction step; the
  query and the transient data are unchanged, and \<open>getCachedResult\<close> then returns the
  merged result. The merge is shallow: in the new result and in the cached one, a field
  of the partial result has the partial result's value and every other field the value
  it had. The cache is written before the state: when the serializer throws, the
  call throws and the state is as before. End to end, for a serializer that gives
  \<^verbatim>\<open>{page: 1}\<close> and \<^verbatim>\<open>{page: 2}\<close> different keys: after \<^verbatim>\<open>setResult({items: ['A']})\<close>
  on a store with query \<^verbatim>\<open>{page: 1}\<close>, \<open>getCachedResult\<close> returns \<^verbatim>\<open>{items: ['A']}\<close>;
  with the query changed to \<^verbatim>\<open>{page: 2}\<close> it returns nothing; with the query back at
  \<^verbatim>\<open>{page: 1}\<close> it returns \<^verbatim>\<open>{items: ['A']}\<close> again.
\<close>

theorem setResult_caches_under_current_query:
  assumes "useCaching st"
  shows "(fst (getCacheKey ser st) = Inr key \<longrightarrow>
            fst (setResult ser partial st) = Inr () \<and>
            getResult (snd (setResult ser partial st)) = merge_objects (getResult st) partial \<and>
            getQuery (snd (setResult ser partial st)) = getQuery st \<and>
            getTransient (snd (setResult ser partial st)) = getTransient st \<and>
            cache (snd (setResult ser partial st)) =
              jsmap_set (evict st) (JStr key) (merge_objects (getResult st) partial) \<and>
            fst (getCachedResult ser (snd (setResult ser partial st))) =
              Inr (Some (merge_objects (getResult st) partial))) \<and>
         (fst (getCacheKey ser st) = Inr key \<and> wf_obj (getResult st) \<and> wf_obj partial \<longrightarrow>
            (\<forall>k. get_prop (getResult (snd (setResult ser partial st))) k =
                  (if k \<in> set (object_keys partial) then get_prop partial k
                   else get_prop (getResult st) k)) \<and>
            (\<exists>c. fst (getCachedResult ser (snd (setResult ser partial st))) = Inr (Some c) \<and>
                 (\<forall>k. get_prop c k =
                    (if k \<in> set (object_keys partial) then get_prop partial k
                     else get_prop (getResult st) k)))) \<and>
         (fst (getCacheKey ser st) = Inl e \<longrightarrow>
            fst (setResult ser partial st) = Inl e \<and>
            getState (snd (setResult ser partial st)) = getState st) \<and>
         (ser [(''page'', JNum 1)] = Inr k1 \<and> ser [(''page'', JNum 2)] = Inr k2 \<and> k1 \<noteq> k2 \<longrightarrow>
            fst (getCachedResult ser
              (snd (setResult ser [(''items'', JArr [JStr ''A''])]
                (shouldCache True (new_QueryResultStore
                   \<lparr>query = [(''page'', JNum 1)], result = [(''items'', JArr [])], transient = t\<rparr>)))))
              = Inr (Some [(''items'', JArr [JStr ''A''])]) \<and>
            fst (getCachedResult ser
              (setQuery [(''page'', JNum 2)]
                (snd (setResult ser [(''items'', JArr [JStr ''A''])]
                  (shouldCache True (new_QueryResultStore
                     \<lparr>query = [(''page'', JNum 1)], result = [(''items'', JArr [])], transient = t\<rparr>))))))
              = Inr None \<and>
            fst (getCachedResult ser
              (setQuery [(''page'', JNum 1)]
                (setQuery [(''page'', JNum 2)]
                  (snd (setResult ser [(''items'', JArr [JStr ''A''])]
                    (shouldCache True (new_QueryResultStore
                       \<lparr>query = [(''page'', JNum 1)], result = [(''items'', JArr [])], transient = t\<rparr>)))))))
              = Inr (Some [(''items'', JArr [JStr ''A''])]))"
proof (intro conjI)
  show "fst (getCacheKey ser st) = Inr key \<longrightarrow>
            fst (setResult ser partial st) = Inr () \<and>
            getResult (snd (setResult ser partial st)) = merge_objects (getResult st) partial \<and>
            getQuery (snd (setResult ser partial st)) = getQuery st \<and>
            getTransient (snd (setResult ser partial st)) = getTransient st \<and>
            cache (snd (setResult ser partial st)) =
              jsmap_set (evict st) (JStr key) (merge_objects (getResult st) partial) \<and>
            fst (getCachedResult ser (snd (setResult ser partial st))) =
              Inr (Some (merge_objects (getResult st) partial))"
    using setResult_cached [OF assms, of ser key partial] by blast
  show "fst (getCacheKey ser st) = Inr key \<and> wf_obj (getResult st) \<and> wf_obj partial \<longrightarrow>
            (\<forall>k. get_prop (getResult (snd (setResult ser partial st))) k =
                  (if k \<in> set (object_keys partial) then get_prop partial k
                   else get_prop (getResult st) k)) \<and>
            (\<exists>c. fst (getCachedResult ser (snd (setResult ser partial st))) = Inr (Some c) \<and>
                 (\<forall>k. get_prop c k =
                    (if k \<in> set (object_keys partial) then get_prop partial k
                     else get_prop (getResult st) k)))"
    using setResult_fieldwise [OF assms, of ser key partial] by blast
  show "fst (getCacheKey ser st) = Inl e \<longrightarrow>
            fst (setResult ser partial st) = Inl e \<and>
            getState (snd (setResult ser partial st)) = getState st"
    using setResult_uncommitted [OF assms, of ser e partial] by blast
  show "ser [(''page'', JNum 1)] = Inr k1 \<and> ser [(''page'', JNum 2)] = Inr k2 \<and> k1 \<noteq> k2 \<longrightarrow>
            fst (getCachedResult ser
              (snd (setResult ser [(''items'', JArr [JStr ''A''])]
                (shouldCache True (new_QueryResultStore
                   \<lparr>query = [(''page'', JNum 1)], result = [(''items'', JArr [])], transient = t\<rparr>)))))
              = Inr (Some [(''items'', JArr [JStr ''A''])]) \<and>
            fst (getCachedResult ser
              (setQuery [(''page'', JNum 2)]
                (snd (setResult ser [(''items'', JArr [JStr ''A''])]
                  (shouldCache True (new_QueryResultStore
                     \<lparr>query = [(''page'', JNum 1)], result = [(''items'', JArr [])], transient = t\<rparr>))))))
              = Inr None \<and>
            fst (getCachedResult ser
              (setQuery [(''page'', JNum 1)]
                (setQuery [(''page'', JNum 2)]
                  (snd (setResult ser [(''items'', JArr [JStr ''A''])]
                    (shouldCache True (new_QueryResultStore
                       \<lparr>query = [(''page'', JNum 1)], result = [(''items'', JArr [])], transient = t\<rparr>)))))))
              = Inr (Some [(''items'', JArr [JStr ''A''])])"
    using end_to_end_cache [of ser k1 k2 t] by blast
qed

theorem setResult_caches_under_current_query_witness:
  \<open>useCaching (shouldCache True (new_QueryResultStore
      \<lparr>query = [(''page'', JNum 1)], result = [(''total'', JNum 0), (''items'', JArr [])],
         transient = []\<rparr>)) \<and>
   fst (getCacheKey json_serialize (shouldCache True (new_QueryResultStore
      \<lparr>query = [(''page'', JNum 1)], result = [(''total'', JNum 0), (''items'', JArr [])],
         transient = []\<rparr>)))
     = Inr ''{"page":1}'' \<and>
   wf_obj [(''total'', JNum 0), (''items'', JArr [])] \<and> wf_obj [(''items'', JArr [JStr ''A''])] \<and>
   getResult (snd (setResult json_serialize [(''items'', JArr [JStr ''A''])]
     (shouldCache True (new_QueryResultStore
        \<lparr>query = [(''page'', JNum 1)], result = [(''total'', JNum 0), (''items'', JArr [])],
           transient = []\<rparr>))))
     = [(''total'', JNum 0), (''items'', JArr [JStr ''A''])] \<and>
   get_prop (getResult (snd (setResult json_serialize [(''items'', JArr [JStr ''A''])]
     (shouldCache True (new_QueryResultStore
        \<lparr>query = [(''page'', JNum 1)], result = [(''total'', JNum 0), (''items'', JArr [])],
           transient = []\<rparr>))))) ''total'' = JNum 0 \<and>
   cache (snd (setResult json_serialize [(''items'', JArr [JStr ''A''])]
     (shouldCache True (new_QueryResultStore
        \<lparr>query = [(''page'', JNum 1)], result = [(''total'', JNum 0), (''items'', JArr [])],
           transient = []\<rparr>))))
     = [(JStr ''{"page":1}'', [(''total'', JNum 0), (''items'', JArr [JStr ''A''])])] \<and>
   fst (getCachedResult json_serialize
     (snd (setResult json_serialize [(''items'', JArr [JStr ''A''])]
       (shouldCache True (new_QueryResultStore
          \<lparr>query = [(''page'', JNum 1)], result = [(''total'', JNum 0), (''items'', JArr [])],
             transient = []\<rparr>)))))
     = Inr (Some [(''total'', JNum 0), (''items'', JArr [JStr ''A''])]) \<and>
   json_serialize [(''page'', JNum 1)] = Inr ''{"page":1}'' \<and>
   json_serialize [(''page'', JNum 2)] = Inr ''{"page":2}'' \<and>
   ''{"page":1}'' \<noteq> ''{"page":2}'' \<and>
   fst (getCachedResult json_serialize
     (snd (setResult json_serialize [(''items'', JArr [JStr ''A''])]
       (shouldCache True (new_QueryResultStore
          \<lparr>query = [(''page'', JNum 1)], result = [(''items'', JArr [])], transient = []\<rparr>)))))
     = Inr (Some [(''items'', JArr [JStr ''A''])]) \<and>
   fst (getCachedResult json_serialize
     (setQuery [(''page'', JNum 2)]
       (snd (setResult json_serialize [(''items'', JArr [JStr ''A''])]
         (shouldCache True (new_QueryResultStore
            \<lparr>query = [(''page'', JNum 1)], result = [(''items'', JArr [])], transient = []\<rparr>))))))
     = Inr None \<and>
   fst (getCachedResult json_serialize
     (setQuery [(''page'', JNum 1)]
       (setQuery [(''page'', JNum 2)]
         (snd (setResult json_serialize [(''items'', JArr [JStr ''A''])]
           (shouldCache True (new_QueryResultStore
              \<lparr>query = [(''page'', JNum 1)], result = [(''items'', JArr [])], transient = []\<rparr>)))))))
     = Inr (Some [(''items'', JArr [JStr ''A''])])\<close>
proof -
  let ?st = "shouldCache True (new_QueryResultStore
      \<lparr>query = [(''page'', JNum 1)], result = [(''total'', JNum 0), (''items'', JArr [])],
         transient = []\<rparr>)"
  let ?p = "[(''items'', JArr [JStr ''A''])]"
  have u: "useCaching ?st" by (simp add: shouldCache_fields)
  have k: \<open>fst (getCacheKey json_serialize ?st) = Inr ''{"page":1}''\<close>
    by (simp add: eval_store eval_obj eval_json)
  have r0: "getResult ?st = [(''total'', JNum 0), (''items'', JArr [])]"
    by (simp add: eval_store)
  have wf: "wf_obj [(''total'', JNum 0), (''items'', JArr [])]" and wfp: "wf_obj ?p"
    by (simp_all add: wf_obj_def object_keys_def)
  have wf': "wf_obj (getResult ?st)"
    by (simp only: r0 wf)
  have m: "merge_objects [(''total'', JNum 0), (''items'', JArr [])] ?p
             = [(''total'', JNum 0), (''items'', JArr [JStr ''A''])]"
    by (simp add: eval_obj)
  have ev: "evict ?st = []"
    by (simp add: evict_def eval_store eval_map)
  have s1: \<open>json_serialize [(''page'', JNum 1)] = Inr ''{"page":1}''\<close>
    and s2: \<open>json_serialize [(''page'', JNum 2)] = Inr ''{"page":2}''\<close>
    by (simp_all add: eval_json)
  have ne: \<open>''{"page":1}'' \<noteq> ''{"page":2}''\<close> by simp
  note t = setResult_caches_under_current_query [OF u,
      where ser = json_serialize and key = \<open>''{"page":1}''\<close> and partial = ?p
        and ?k1.0 = \<open>''{"page":1}''\<close> and ?k2.0 = \<open>''{"page":2}''\<close> and t = "[]"]
  note a = t [THEN conjunct1, THEN mp, OF k, unfolded r0 m ev]
  have a2: "getResult (snd (setResult json_serialize ?p ?st))
              = [(''total'', JNum 0), (''items'', JArr [JStr ''A''])]"
    using a [THEN conjunct2, THEN conjunct1] .
  have a5: \<open>cache (snd (setResult json_serialize ?p ?st))
              = [(JStr ''{"page":1}'', [(''total'', JNum 0), (''items'', JArr [JStr ''A''])])]\<close>
    using a [THEN conjunct2, THEN conjunct2, THEN conjunct2, THEN conjunct2, THEN conjunct1]
    by (simp add: jsmap_set_def jsmap_has_def)
  have a6: "fst (getCachedResult json_serialize (snd (setResult json_serialize ?p ?st)))
              = Inr (Some [(''total'', JNum 0), (''items'', JArr [JStr ''A''])])"
    using a [THEN conjunct2, THEN conjunct2, THEN conjunct2, THEN conjunct2, THEN conjunct2] .
  note f = t [THEN conjunct2, THEN conjunct1, THEN mp,
      OF conjI [OF k conjI [OF wf' wfp]], THEN conjunct1, THEN spec, of "''total''"]
  have f1: "get_prop (getResult (snd (setResult json_serialize ?p ?st))) ''total'' = JNum 0"
    using f by (simp add: r0 object_keys_def get_prop_def)
  note b = t [THEN conjunct2, THEN conjunct2, THEN conjunct2, THEN mp,
      OF conjI [OF s1 conjI [OF s2 ne]]]
  note b1 = b [THEN conjunct1] and b2 = b [THEN conjunct2, THEN conjunct1]
    and b3 = b [THEN conjunct2, THEN conjunct2]
  show ?thesis using u k wf wfp a2 f1 a5 a6 s1 s2 ne b1 b2 b3
    by - (intro conjI; assumption)
qed

section \<open>The size of the cache\<close>

lemma length_jsmap_set_le: "length (jsmap_set m k v) \<le> Suc (length m)"
  by (simp add: length_jsmap_set)

lemma keys_jsmap_set_subset: "set (map fst (jsmap_set m k v)) = insert k (set (map fst m))"
  unfolding keys_jsmap_set by (auto simp: jsmap_has_def)

lemma keys_removeOldestEntry_subset: "set (map fst (removeOldestEntry m)) \<subseteq> set (map fst m)"
  by (auto simp: removeOldestEntry_def jsmap_delete_def Let_def)

lemma cache_inv_removeOldestEntry:
  "wf_jsmap m \<and> JUndefined \<notin> set (map fst m) \<Longrightarrow>
   wf_jsmap (removeOldestEntry m) \<and> JUndefined \<notin> set (map fst (removeOldestEntry m))"
  using keys_removeOldestEntry_subset [of m] by (auto simp: wf_removeOldestEntry)

lemma removeOldestEntry_tl:
  "wf_jsmap m \<Longrightarrow> JUndefined \<notin> set (map fst m) \<Longrightarrow> removeOldestEntry m = tl m"
proof (cases m)
  case Nil
  then show ?thesis by (simp add: removeOldestEntry_Nil)
next
  case (Cons a rest)
  assume wf: "wf_jsmap m" and nu: "JUndefined \<notin> set (map fst m)"
  obtain k v where a: "a = (k, v)" by (cases a)
  have "k \<noteq> JUndefined" using nu Cons a by auto
  then show ?thesis using removeOldestEntry_Cons [of k v rest] wf Cons a by simp
qed

lemma cache_inv_evict:
  "cache_inv st \<Longrightarrow> wf_jsmap (evict st) \<and> JUndefined \<notin> set (map fst (evict st))"
  using cache_inv_removeOldestEntry [of "cache st"] by (simp add: cache_inv_def evict_def)

lemma length_evict: "length (evict st) \<le> length (cache st)"
  by (simp add: evict_def length_removeOldestEntry)

lemma cacheResult_cases:
  "snd (cacheResult ser r st) = st \<or>
   snd (cacheResult ser r st) = st\<lparr>cache := evict st\<rparr> \<or>
   (\<exists>key. snd (cacheResult ser r st) = st\<lparr>cache := jsmap_set (evict st) (JStr key) r\<rparr>)"
proof (cases "useCaching st")
  case False
  then show ?thesis by (simp add: cacheResult_disabled)
next
  case True
  show ?thesis
  proof (cases "fst (getCacheKey ser st)")
    case (Inl e)
    then show ?thesis by (simp add: cacheResult_throws [OF True])
  next
    case (Inr key)
    have "snd (cacheResult ser r st) = st\<lparr>cache := jsmap_set (evict st) (JStr key) r\<rparr>"
      by (simp add: cacheResult_enabled [OF True Inr])
    then show ?thesis by blast
  qed
qed

lemma at_capacity_finite:
  "cacheLimit st = Finite x \<Longrightarrow> at_capacity st = (\<bar>x\<bar> \<le> of_int (jsmap_size (cache st)))"
  by (simp add: at_capacity_def jsmap_size_num_def)

lemma at_capacity_integer:
  "cacheLimit st = Finite (of_int n) \<Longrightarrow> at_capacity st = (\<bar>n\<bar> \<le> jsmap_size (cache st))"
proof -
  assume l: "cacheLimit st = Finite (of_int n)"
  have "(\<bar>of_int n :: rat\<bar> \<le> of_int (jsmap_size (cache st))) = (\<bar>n\<bar> \<le> jsmap_size (cache st))"
    by (simp only: of_int_abs [symmetric] of_int_le_iff)
  then show ?thesis using at_capacity_finite [OF l] by simp
qed


lemma evict_room:
  assumes "cache_inv st" and "cacheLimit st = Finite x"
    and "jsmap_size (cache st) \<le> max 1 \<lceil>\<bar>x\<bar>\<rceil>"
  shows "int (Suc (length (evict st))) \<le> max 1 \<lceil>\<bar>x\<bar>\<rceil>"
proof (cases "at_capacity st")
  case True
  have "evict st = tl (cache st)"
    using True assms(1) removeOldestEntry_tl [of "cache st"] by (simp add: evict_def cache_inv_def)
  then show ?thesis using assms(3) by (cases "cache st") (simp_all add: jsmap_size_def)
next
  case False
  then have "of_int (jsmap_size (cache st)) < \<bar>x\<bar>"
    using at_capacity_finite [OF assms(2)] by simp
  then have "jsmap_size (cache st) < \<lceil>\<bar>x\<bar>\<rceil>" by (simp add: less_ceiling_iff)
  then show ?thesis using False by (simp add: evict_def jsmap_size_def)
qed

lemma bounded_alt:
  "bounded st =
     (cache_inv st \<and> (\<forall>x. cacheLimit st = Finite x \<longrightarrow> jsmap_size (cache st) \<le> max 1 \<lceil>\<bar>x\<bar>\<rceil>))"
  by (cases "cacheLimit st") (simp_all add: bounded_def size_bound_def)

lemma bounded_finite:
  "bounded st \<Longrightarrow> cacheLimit st = Finite x \<Longrightarrow> jsmap_size (cache st) \<le> max 1 \<lceil>\<bar>x\<bar>\<rceil>"
  by (simp add: bounded_alt)

lemma bounded_cache_update:
  assumes "bounded st" and "wf_jsmap c" and "JUndefined \<notin> set (map fst c)"
    and "\<And>x. cacheLimit st = Finite x \<Longrightarrow> int (length c) \<le> max 1 \<lceil>\<bar>x\<bar>\<rceil>"
  shows "bounded (st\<lparr>cache := c\<rparr>)"
  using assms by (simp add: bounded_alt cache_inv_def jsmap_size_def)

lemma bounded_cacheResult:
  assumes "bounded st"
  shows "bounded (snd (cacheResult ser r st)) \<and> cacheLimit (snd (cacheResult ser r st)) = cacheLimit st"
proof -
  have inv: "cache_inv st" using assms by (simp add: bounded_alt)
  note ev = cache_inv_evict [OF inv]
  have room: "int (Suc (length (evict st))) \<le> max 1 \<lceil>\<bar>x\<bar>\<rceil>" if "cacheLimit st = Finite x" for x
    using evict_room [OF inv that bounded_finite [OF assms that]] .
  have b1: "bounded (st\<lparr>cache := evict st\<rparr>)"
  proof (intro bounded_cache_update [OF assms])
    show "wf_jsmap (evict st)" "JUndefined \<notin> set (map fst (evict st))" using ev by simp_all
    show "int (length (evict st)) \<le> max 1 \<lceil>\<bar>x\<bar>\<rceil>" if "cacheLimit st = Finite x" for x
      using room [OF that] by linarith
  qed
  have b2: "bounded (st\<lparr>cache := jsmap_set (evict st) (JStr key) r\<rparr>)" for key
  proof (intro bounded_cache_update [OF assms])
    show "wf_jsmap (jsmap_set (evict st) (JStr key) r)" using ev by (simp add: wf_jsmap_set)
    show "JUndefined \<notin> set (map fst (jsmap_set (evict st) (JStr key) r))"
      using ev keys_jsmap_set_subset [of "evict st" "JStr key" r] by simp
    show "int (length (jsmap_set (evict st) (JStr key) r)) \<le> max 1 \<lceil>\<bar>x\<bar>\<rceil>"
      if "cacheLimit st = Finite x" for x
      using room [OF that] length_jsmap_set_le [of "evict st" "JStr key" r] by linarith
  qed
  show ?thesis using cacheResult_cases [of ser r st] assms b1 b2 by auto
qed

lemma bounded_setState: "bounded st \<Longrightarrow> bounded (setState p st)"
  by (simp add: bounded_alt cache_inv_def setState_fields)

lemma bounded_setResult:
  assumes "bounded st"
  shows "bounded (snd (setResult ser r st)) \<and> cacheLimit (snd (setResult ser r st)) = cacheLimit st"
proof -
  let ?new = "merge_objects (result (getState st)) r"
  let ?st1 = "snd (cacheResult ser ?new st)"
  have c: "bounded ?st1 \<and> cacheLimit ?st1 = cacheLimit st"
    using bounded_cacheResult [OF assms] .
  have "snd (setResult ser r st) = ?st1 \<or>
        snd (setResult ser r st) = setState (no_change\<lparr>p_result := Some ?new\<rparr>) ?st1"
    by (simp add: setResult_def Let_def split: prod.splits sum.splits)
  then show ?thesis using c bounded_setState [of ?st1] by (auto simp: setState_fields)
qed

lemma bounded_run_op:
  assumes "bounded st"
  shows "bounded (run_op ser op st) \<and> cacheLimit (run_op ser op st) = cacheLimit st"
proof (cases op)
  case (SetQuery q)
  then show ?thesis using assms by (simp add: bounded_alt cache_inv_def setQuery_fields)
next
  case (SetResult r)
  then show ?thesis using bounded_setResult [OF assms] by simp
next
  case (SetTransient t)
  then show ?thesis using assms by (simp add: bounded_alt cache_inv_def setTransient_fields)
next
  case (CacheResult r)
  then show ?thesis using bounded_cacheResult [OF assms] by simp
next
  case GetCachedResult
  then show ?thesis using assms by (simp add: getCachedResult_snd)
next
  case GetCacheKey
  then show ?thesis using assms by (simp add: getCacheKey_snd)
next
  case (ShouldCache v)
  then show ?thesis using assms by (simp add: bounded_alt cache_inv_def shouldCache_fields)
qed

lemma bounded_run_ops:
  "bounded st \<Longrightarrow> bounded (run_ops ser ops st) \<and> cacheLimit (run_ops ser ops st) = cacheLimit st"
proof (induction ops arbitrary: st)
  case Nil
  then show ?case by (simp add: run_ops_def)
next
  case (Cons op ops)
  have step: "bounded (run_op ser op st)" "cacheLimit (run_op ser op st) = cacheLimit st"
    using bounded_run_op [OF Cons.prems] by simp_all
  have "run_ops ser (op # ops) st = run_ops ser ops (run_op ser op st)"
    by (simp add: run_ops_def)
  then show ?case using Cons.IH [OF step(1)] step(2) by simp
qed

lemma bounded_new: "bounded ((new_QueryResultStore init)\<lparr>cacheLimit := limit\<rparr>)"
  by (auto simp: bounded_alt cache_inv_def wf_jsmap_def jsmap_size_def new_QueryResultStore_def)






section \<open>Storing under a key that is present\<close>

lemma jsmap_first_key_Cons: "jsmap_first_key ((k, v) # rest) = k"
  by (simp add: jsmap_first_key_def)

lemma cacheResult_present_key:
  assumes en: "useCaching st" and inv: "cache_inv st"
    and key: "fst (getCacheKey ser st) = Inr key" and has: "jsmap_has (cache st) (JStr key)"
  shows "(\<not> at_capacity st \<longrightarrow>
            map fst (cache (snd (cacheResult ser r st))) = map fst (cache st) \<and>
            jsmap_get (cache (snd (cacheResult ser r st))) (JStr key) = Some r \<and>
            (\<forall>k. k \<noteq> JStr key \<longrightarrow>
               jsmap_get (cache (snd (cacheResult ser r st))) k = jsmap_get (cache st) k)) \<and>
         (at_capacity st \<and> jsmap_first_key (cache st) = JStr key \<longrightarrow>
            cache (snd (cacheResult ser r st)) = tl (cache st) @ [(JStr key, r)]) \<and>
         (at_capacity st \<and> jsmap_first_key (cache st) \<noteq> JStr key \<longrightarrow>
            map fst (cache (snd (cacheResult ser r st))) = tl (map fst (cache st)) \<and>
            jsmap_get (cache (snd (cacheResult ser r st))) (JStr key) = Some r)"
proof (intro conjI impI allI)
  note eq = cacheResult_enabled [OF en key, of r]
  {
    assume below: "\<not> at_capacity st"
    then have ev: "evict st = cache st" by (simp add: evict_def)
    show "map fst (cache (snd (cacheResult ser r st))) = map fst (cache st)"
      using has by (simp add: eq ev keys_jsmap_set)
    show "jsmap_get (cache (snd (cacheResult ser r st))) (JStr key) = Some r"
      by (simp add: eq jsmap_get_set)
    fix k
    assume "k \<noteq> JStr key"
    then show "jsmap_get (cache (snd (cacheResult ser r st))) k = jsmap_get (cache st) k"
      by (simp add: eq ev jsmap_get_set)
  }
  have tl: "at_capacity st \<Longrightarrow> evict st = tl (cache st)"
    using inv removeOldestEntry_tl [of "cache st"] by (simp add: evict_def cache_inv_def)
  obtain k0 v0 rest where c: "cache st = (k0, v0) # rest"
    using has by (cases "cache st") (auto simp: jsmap_has_def)
  have d: "k0 \<notin> set (map fst rest)" using inv c by (simp add: cache_inv_def wf_jsmap_def)
  {
    assume full: "at_capacity st \<and> jsmap_first_key (cache st) = JStr key"
    then have k0: "k0 = JStr key" by (simp add: c jsmap_first_key_Cons)
    have "\<not> jsmap_has rest (JStr key)" using d k0 by (simp add: jsmap_has_def)
    then show "cache (snd (cacheResult ser r st)) = tl (cache st) @ [(JStr key, r)]"
      using full by (simp add: eq tl c jsmap_set_def)
  }
  {
    assume full: "at_capacity st \<and> jsmap_first_key (cache st) \<noteq> JStr key"
    then have k0: "k0 \<noteq> JStr key" by (simp add: c jsmap_first_key_Cons)
    have "jsmap_has rest (JStr key)" using has k0 by (auto simp: c jsmap_has_def)
    then show "map fst (cache (snd (cacheResult ser r st))) = tl (map fst (cache st))"
      using full by (simp add: eq tl c keys_jsmap_set)
    show "jsmap_get (cache (snd (cacheResult ser r st))) (JStr key) = Some r"
      by (simp add: eq jsmap_get_set)
  }
qed

text \<open>
  C2, as the code has it: on a store reached from a new one, with caching enabled,
  \<open>cacheResult\<close> for a key that is present
  \<^item> overwrites the value where the entry stands, the order of the keys and the other
    values unchanged, when the test \<^verbatim>\<open>size >= Math.abs(cacheLimit)\<close> fails (for an integer
    limit: when the cache holds fewer than \<open>\<bar>cacheLimit\<bar>\<close> entries);
  \<^item> when the test holds first evicts the oldest entry: when that is the entry of the
    key itself, the key is stored again as the newest entry; otherwise the oldest entry is
    lost and the key keeps its place among the others.
\<close>

theorem cacheResult_existing_key:
  assumes "st = run_ops ser ops ((new_QueryResultStore init)\<lparr>cacheLimit := limit\<rparr>)"
    and "useCaching st" and "fst (getCacheKey ser st) = Inr key"
    and "jsmap_has (cache st) (JStr key)"
  shows "(\<not> at_capacity st \<longrightarrow>
            map fst (cache (snd (cacheResult ser r st))) = map fst (cache st) \<and>
            jsmap_get (cache (snd (cacheResult ser r st))) (JStr key) = Some r \<and>
            (\<forall>k. k \<noteq> JStr key \<longrightarrow>
               jsmap_get (cache (snd (cacheResult ser r st))) k = jsmap_get (cache st) k)) \<and>
         (at_capacity st \<and> jsmap_first_key (cache st) = JStr key \<longrightarrow>
            cache (snd (cacheResult ser r st)) = tl (cache st) @ [(JStr key, r)]) \<and>
         (at_capacity st \<and> jsmap_first_key (cache st) \<noteq> JStr key \<longrightarrow>
            map fst (cache (snd (cacheResult ser r st))) = tl (map fst (cache st)) \<and>
            jsmap_get (cache (snd (cacheResult ser r st))) (JStr key) = Some r) \<and>
         (limit = Finite (of_int n) \<longrightarrow> at_capacity st = (\<bar>n\<bar> \<le> jsmap_size (cache st)))"
proof -
  have "bounded st"
    using bounded_run_ops [OF bounded_new [where init = init and limit = limit], of ser ops] assms(1)
    by simp
  then have inv: "cache_inv st" by (simp add: bounded_alt)
  have l: "cacheLimit st = limit"
    using bounded_run_ops [OF bounded_new [where init = init and limit = limit], of ser ops] assms(1)
    by simp
  have cap: "limit = Finite (of_int n) \<longrightarrow> at_capacity st = (\<bar>n\<bar> \<le> jsmap_size (cache st))"
    using at_capacity_integer [of st n] l by simp
  show ?thesis using cacheResult_present_key [OF assms(2) inv assms(3,4), of r] cap
    by (intro conjI) blast+
qed

theorem cacheResult_existing_key_witness:
  \<open>useCaching (run_ops json_serialize
      [ShouldCache True, CacheResult [(''n'', JNum 1)], SetQuery [(''page'', JNum 2)],
       CacheResult [(''n'', JNum 2)], SetQuery [(''page'', JNum 3)], CacheResult [(''n'', JNum 3)],
       SetQuery [(''page'', JNum 2)]]
      ((new_QueryResultStore \<lparr>query = [(''page'', JNum 1)], result = [], transient = []\<rparr>)
         \<lparr>cacheLimit := Finite 2\<rparr>)) \<and>
   fst (getCacheKey json_serialize (run_ops json_serialize
      [ShouldCache True, CacheResult [(''n'', JNum 1)], SetQuery [(''page'', JNum 2)],
       CacheResult [(''n'', JNum 2)], SetQuery [(''page'', JNum 3)], CacheResult [(''n'', JNum 3)],
       SetQuery [(''page'', JNum 2)]]
      ((new_QueryResultStore \<lparr>query = [(''page'', JNum 1)], result = [], transient = []\<rparr>)
         \<lparr>cacheLimit := Finite 2\<rparr>))) = Inr ''{"page":2}'' \<and>
   cache (run_ops json_serialize
      [ShouldCache True, CacheResult [(''n'', JNum 1)], SetQuery [(''page'', JNum 2)],
       CacheResult [(''n'', JNum 2)], SetQuery [(''page'', JNum 3)], CacheResult [(''n'', JNum 3)],
       SetQuery [(''page'', JNum 2)]]
      ((new_QueryResultStore \<lparr>query = [(''page'', JNum 1)], result = [], transient = []\<rparr>)
         \<lparr>cacheLimit := Finite 2\<rparr>))
     = [(JStr ''{"page":2}'', [(''n'', JNum 2)]), (JStr ''{"page":3}'', [(''n'', JNum 3)])] \<and>
   cache (snd (cacheResult json_serialize [(''n'', JNum 22)] (run_ops json_serialize
      [ShouldCache True, CacheResult [(''n'', JNum 1)], SetQuery [(''page'', JNum 2)],
       CacheResult [(''n'', JNum 2)], SetQuery [(''page'', JNum 3)], CacheResult [(''n'', JNum 3)],
       SetQuery [(''page'', JNum 2)]]
      ((new_QueryResultStore \<lparr>query = [(''page'', JNum 1)], result = [], transient = []\<rparr>)
         \<lparr>cacheLimit := Finite 2\<rparr>))))
     = [(JStr ''{"page":3}'', [(''n'', JNum 3)]), (JStr ''{"page":2}'', [(''n'', JNum 22)])]\<close>
proof -
  let ?ops = "[ShouldCache True, CacheResult [(''n'', JNum 1)], SetQuery [(''page'', JNum 2)],
       CacheResult [(''n'', JNum 2)], SetQuery [(''page'', JNum 3)], CacheResult [(''n'', JNum 3)],
       SetQuery [(''page'', JNum 2)]]"
  let ?init = "\<lparr>query = [(''page'', JNum 1)], result = [], transient = []\<rparr>"
  let ?st = "run_ops json_serialize ?ops ((new_QueryResultStore ?init)\<lparr>cacheLimit := Finite 2\<rparr>)"
  have u: "useCaching ?st"
    by (simp add: eval_store eval_map eval_obj eval_json)
  have k: \<open>fst (getCacheKey json_serialize ?st) = Inr ''{"page":2}''\<close>
    by (simp add: eval_store eval_map eval_obj eval_json)
  have c: \<open>cache ?st = [(JStr ''{"page":2}'', [(''n'', JNum 2)]), (JStr ''{"page":3}'', [(''n'', JNum 3)])]\<close>
    by (simp add: eval_store eval_map eval_obj eval_json)
  have l: "cacheLimit ?st = Finite 2"
    by (simp add: eval_store eval_map eval_obj eval_json)
  have h: \<open>jsmap_has (cache ?st) (JStr ''{"page":2}'')\<close>
    by (simp add: c jsmap_has_def)
  have full: \<open>at_capacity ?st \<and> jsmap_first_key (cache ?st) = JStr ''{"page":2}''\<close>
    by (simp add: c l at_capacity_def jsmap_size_num_def jsmap_size_def jsmap_first_key_def)
  note t = cacheResult_existing_key [OF refl u k h, of "[(''n'', JNum 22)]"]
  have \<open>cache (snd (cacheResult json_serialize [(''n'', JNum 22)] ?st))
          = tl (cache ?st) @ [(JStr ''{"page":2}'', [(''n'', JNum 22)])]\<close>
    using t [THEN conjunct2, THEN conjunct1, THEN mp, OF full] .
  then have r: \<open>cache (snd (cacheResult json_serialize [(''n'', JNum 22)] ?st))
          = [(JStr ''{"page":3}'', [(''n'', JNum 3)]), (JStr ''{"page":2}'', [(''n'', JNum 22)])]\<close>
    by (simp add: c)
  show ?thesis using u k c r by - (intro conjI; assumption)
qed

text \<open>
  The scenario of the claim, with \<open>cacheLimit = 2\<close>: after K1, K2 and K3 the cache holds
  K2 and K3. Storing K2 again evicts the oldest entry, K2 itself, and stores K2 as the
  newest; storing K4 then evicts K3, and the cache holds K2 and K4.
\<close>

theorem reinserted_key_becomes_newest:
  \<open>map fst (cache (run_ops json_serialize
      [ShouldCache True, CacheResult [(''n'', JNum 1)], SetQuery [(''page'', JNum 2)],
       CacheResult [(''n'', JNum 2)], SetQuery [(''page'', JNum 3)], CacheResult [(''n'', JNum 3)]]
      ((new_QueryResultStore \<lparr>query = [(''page'', JNum 1)], result = [], transient = []\<rparr>)
         \<lparr>cacheLimit := Finite 2\<rparr>)))
     = [JStr ''{"page":2}'', JStr ''{"page":3}''] \<and>
   map fst (cache (run_ops json_serialize
      [ShouldCache True, CacheResult [(''n'', JNum 1)], SetQuery [(''page'', JNum 2)],
       CacheResult [(''n'', JNum 2)], SetQuery [(''page'', JNum 3)], CacheResult [(''n'', JNum 3)],
       SetQuery [(''page'', JNum 2)], CacheResult [(''n'', JNum 22)]]
      ((new_QueryResultStore \<lparr>query = [(''page'', JNum 1)], result = [], transient = []\<rparr>)
         \<lparr>cacheLimit := Finite 2\<rparr>)))
     = [JStr ''{"page":3}'', JStr ''{"page":2}''] \<and>
   cache (run_ops json_serialize
      [ShouldCache True, CacheResult [(''n'', JNum 1)], SetQuery [(''page'', JNum 2)],
       CacheResult [(''n'', JNum 2)], SetQuery [(''page'', JNum 3)], CacheResult [(''n'', JNum 3)],
       SetQuery [(''page'', JNum 2)], CacheResult [(''n'', JNum 22)],
       SetQuery [(''page'', JNum 4)], CacheResult [(''n'', JNum 4)]]
      ((new_QueryResultStore \<lparr>query = [(''page'', JNum 1)], result = [], transient = []\<rparr>)
         \<lparr>cacheLimit := Finite 2\<rparr>))
     = [(JStr ''{"page":2}'', [(''n'', JNum 22)]), (JStr ''{"page":4}'', [(''n'', JNum 4)])] \<and>
   \<not> jsmap_has (cache (run_ops json_serialize
      [ShouldCache True, CacheResult [(''n'', JNum 1)], SetQuery [(''page'', JNum 2)],
       CacheResult [(''n'', JNum 2)], SetQuery [(''page'', JNum 3)], CacheResult [(''n'', JNum 3)],
       SetQuery [(''page'', JNum 2)], CacheResult [(''n'', JNum 22)],
       SetQuery [(''page'', JNum 4)], CacheResult [(''n'', JNum 4)]]
      ((new_QueryResultStore \<lparr>query = [(''page'', JNum 1)], result = [], transient = []\<rparr>)
         \<lparr>cacheLimit := Finite 2\<rparr>))) (JStr ''{"page":3}'')\<close>
  by (simp add: eval_store eval_map eval_obj eval_json)

end
